theory Spec2Isabelle
  imports Main "HOL-Library.Multiset" "HOL-Library.AList" "HOL-Library.Monad_Syntax"
begin

unbundle bit_operations_syntax

section \<open>The BK-tree of pybktree.py\<close>

subsection \<open>hamming\_distance\<close>

text \<open>
  \<^verbatim>\<open>bin(k)\<close> of Python writes an integer in base two, most significant digit first,
  after the prefix \<^verbatim>\<open>0b\<close>, and after a minus sign when \<open>k\<close> is negative (the digits
  are then those of \<open>- k\<close>). \<open>bin_digits\<close> is the digit string of a non-negative integer.
\<close>

function bin_digits :: "int \<Rightarrow> string" where
  "bin_digits k =
     (if k < 2 then [if k = 1 then CHR ''1'' else CHR ''0'']
      else bin_digits (k div 2) @ [if k mod 2 = 1 then CHR ''1'' else CHR ''0''])"
  by pat_completeness auto
termination
  by (relation "measure nat") auto

declare bin_digits.simps [simp del]

definition bin :: "int \<Rightarrow> string" where
  "bin k = (if k < 0 then ''-0b'' @ bin_digits (- k) else ''0b'' @ bin_digits k)"

text \<open>\<^verbatim>\<open>return bin(x ^ y).count('1')\<close>\<close>

definition hamming_distance :: "int \<Rightarrow> int \<Rightarrow> int" where
  "hamming_distance x y = int (count_list (bin (x XOR y)) CHR ''1'')"

subsection \<open>Nodes and trees\<close>

text \<open>
  A node is the two-tuple \<^verbatim>\<open>(item, children_dict)\<close>. The dict is kept as an association
  list in insertion order, which is the order \<^verbatim>\<open>children.items()\<close> and
  \<^verbatim>\<open>children.values()\<close> enumerate; \<^verbatim>\<open>children.get(d)\<close> is \<open>map_of\<close>. Distances are
  Python integers.
\<close>

datatype 'a node = Node (item: 'a) (children: "(int \<times> 'a node) list")

text \<open>The object state: \<^verbatim>\<open>self.distance_func\<close> and \<^verbatim>\<open>self.tree\<close> (\<^verbatim>\<open>None\<close> when empty).\<close>

record 'a bktree =
  distance_func :: "'a \<Rightarrow> 'a \<Rightarrow> int"
  tree :: "'a node option"

lemma map_of_size:
  "map_of cs d = Some c \<Longrightarrow> size c < Suc (size_list (size_prod (\<lambda>_. 0) size) cs)"
  by (induction cs) (auto split: if_splits)

subsection \<open>add\<close>

text \<open>
  The descent loop of \<^verbatim>\<open>add\<close>, started at a node: compute the distance of the new item
  to the node's item, look the distance up among the children, attach a new leaf under
  that key when it is free, otherwise go on in the child found. The Python assigns into
  the dict of the last node reached; here the path to it is rebuilt, every dict keeping its
  order (the entry of the child descended into stays where it is).
\<close>

function add_node :: "('a \<Rightarrow> 'a \<Rightarrow> int) \<Rightarrow> 'a \<Rightarrow> 'a node \<Rightarrow> 'a node" where
  "add_node f x (Node parent cs) =
     (let distance = f x parent in
      case map_of cs distance of
        None \<Rightarrow> Node parent (cs @ [(distance, Node x [])])
      | Some nd \<Rightarrow> Node parent (AList.update distance (add_node f x nd) cs))"
  by pat_completeness auto
termination
  by (relation "measure (\<lambda>(f, x, nd). size nd)") (auto dest: map_of_size)

definition add :: "'a bktree \<Rightarrow> 'a \<Rightarrow> 'a bktree" where
  "add t x =
     (case tree t of
        None \<Rightarrow> t\<lparr>tree := Some (Node x [])\<rparr>
      | Some nd \<Rightarrow> t\<lparr>tree := Some (add_node (distance_func t) x nd)\<rparr>)"

subsection \<open>The constructor\<close>

text \<open>\<^verbatim>\<open>for item in items: _add(item)\<close>\<close>

fun init_loop :: "'a bktree \<Rightarrow> 'a list \<Rightarrow> 'a bktree" where
  "init_loop t [] = t"
| "init_loop t (x # xs) = init_loop (add t x) xs"

definition BKTree :: "('a \<Rightarrow> 'a \<Rightarrow> int) \<Rightarrow> 'a list \<Rightarrow> 'a bktree" where
  "BKTree f items = init_loop \<lparr>distance_func = f, tree = None\<rparr> items"

subsection \<open>find\<close>

text \<open>
  The generator \<^verbatim>\<open>c for d, c in children.items() if lower <= d <= upper\<close>.
\<close>

definition selected :: "int \<Rightarrow> int \<Rightarrow> (int \<times> 'a node) list \<Rightarrow> 'a node list" where
  "selected lower upper cs = map snd (filter (\<lambda>(d, c). lower \<le> d \<and> d \<le> upper) cs)"

lemma size_selected:
  "sum_list (map size (selected lo hi cs)) \<le> size_list (size_prod (\<lambda>_. 0) size) cs"
  by (induction cs) (auto simp: selected_def)

text \<open>
  The \<^verbatim>\<open>while candidates\<close> loop: the deque is a list, \<^verbatim>\<open>popleft\<close> takes its head and
  \<^verbatim>\<open>extend\<close> appends at its end; \<^verbatim>\<open>found\<close> grows at its end.
\<close>

function find_loop ::
  "('a \<Rightarrow> 'a \<Rightarrow> int) \<Rightarrow> 'a \<Rightarrow> int \<Rightarrow> 'a node list \<Rightarrow> (int \<times> 'a) list \<Rightarrow> (int \<times> 'a) list"
where
  "find_loop f x n [] found = found"
| "find_loop f x n (Node candidate cs # candidates) found =
     (let distance = f candidate x;
          found' = (if distance \<le> n then found @ [(distance, candidate)] else found);
          candidates' =
            (if cs \<noteq> [] then candidates @ selected (distance - n) (distance + n) cs
             else candidates)
      in find_loop f x n candidates' found')"
  by pat_completeness auto
termination
  by (relation "measure (\<lambda>(f, x, n, candidates, found). sum_list (map size candidates))")
     (auto simp: less_Suc_eq_le size_selected)

text \<open>
  \<^verbatim>\<open>found.sort(key=_getitem0)\<close> is a stable sort on the first component, as \<open>sort_key\<close>
  is.
\<close>

definition find_bk :: "'a bktree \<Rightarrow> 'a \<Rightarrow> int \<Rightarrow> (int \<times> 'a) list" where
  "find_bk t x n =
     (case tree t of
        None \<Rightarrow> []
      | Some root \<Rightarrow> sort_key fst (find_loop (distance_func t) x n [root] []))"

subsection \<open>Iteration\<close>

lemma size_values:
  "sum_list (map (size \<circ> snd) cs) \<le> size_list (size_prod (\<lambda>_. 0) size) cs"
  by (induction cs) auto

text \<open>The generator \<^verbatim>\<open>__iter__\<close>, as the list of the items it yields.\<close>

function iter_loop :: "'a node list \<Rightarrow> 'a list" where
  "iter_loop [] = []"
| "iter_loop (Node candidate cs # candidates) = candidate # iter_loop (candidates @ map snd cs)"
  by pat_completeness auto
termination
  by (relation "measure (\<lambda>candidates. sum_list (map size candidates))")
     (auto simp: less_Suc_eq_le size_values)

definition iter :: "'a bktree \<Rightarrow> 'a list" where
  "iter t = (case tree t of None \<Rightarrow> [] | Some root \<Rightarrow> iter_loop [root])"

subsection \<open>What a tree holds\<close>

text \<open>The multiset of the items stored in a node and below it, and in a tree.\<close>

fun items_of :: "'a node \<Rightarrow> 'a multiset" where
  "items_of (Node p cs) = {#p#} + (\<Sum>(d, c) \<leftarrow> cs. items_of c)"

definition items_of_tree :: "'a bktree \<Rightarrow> 'a multiset" where
  "items_of_tree t = (case tree t of None \<Rightarrow> {#} | Some nd \<Rightarrow> items_of nd)"

text \<open>
  The invariant on the keys: every child stored under key \<open>d\<close> has an item at distance
  \<open>d\<close> from its parent's item, throughout the tree.
\<close>

fun keys_ok :: "('a \<Rightarrow> 'a \<Rightarrow> int) \<Rightarrow> 'a node \<Rightarrow> bool" where
  "keys_ok f (Node p cs) = (\<forall>(d, c) \<in> set cs. f (item c) p = d \<and> keys_ok f c)"

definition keys_ok_tree :: "'a bktree \<Rightarrow> bool" where
  "keys_ok_tree t = (case tree t of None \<Rightarrow> True | Some nd \<Rightarrow> keys_ok (distance_func t) nd)"

text \<open>
  An association list stands for a dict when its keys are distinct; this holds of every
  children list of a tree built by \<^verbatim>\<open>add\<close>.
\<close>

fun dict_ok :: "'a node \<Rightarrow> bool" where
  "dict_ok (Node p cs) = (distinct (map fst cs) \<and> (\<forall>(d, c) \<in> set cs. dict_ok c))"

definition dict_ok_tree :: "'a bktree \<Rightarrow> bool" where
  "dict_ok_tree t = (case tree t of None \<Rightarrow> True | Some nd \<Rightarrow> dict_ok nd)"

text \<open>
  The invariant the search relies on: every item stored below the child under key \<open>d\<close>
  is at distance \<open>d\<close> from the parent's item, throughout the tree.
\<close>

fun subtree_ok :: "('a \<Rightarrow> 'a \<Rightarrow> int) \<Rightarrow> 'a node \<Rightarrow> bool" where
  "subtree_ok f (Node p cs) =
     (\<forall>(d, c) \<in> set cs. (\<forall>y \<in># items_of c. f y p = d) \<and> subtree_ok f c)"

definition subtree_ok_tree :: "'a bktree \<Rightarrow> bool" where
  "subtree_ok_tree t =
     (case tree t of None \<Rightarrow> True | Some nd \<Rightarrow> subtree_ok (distance_func t) nd)"

text \<open>
  The item stored at the end of a path of keys from the root, each key looked up as
  \<^verbatim>\<open>children.get\<close> does; \<open>None\<close> when the path leaves the tree.
\<close>

fun item_at :: "'a node \<Rightarrow> int list \<Rightarrow> 'a option" where
  "item_at (Node p cs) [] = Some p"
| "item_at (Node p cs) (d # ds) =
     (case map_of cs d of None \<Rightarrow> None | Some c \<Rightarrow> item_at c ds)"

definition item_at_tree :: "'a bktree \<Rightarrow> int list \<Rightarrow> 'a option" where
  "item_at_tree t ds = (case tree t of None \<Rightarrow> None | Some nd \<Rightarrow> item_at nd ds)"

subsection \<open>Reference definitions\<close>

text \<open>
  The brute-force linear scan over a list of items: the pairs of distance and item, for
  the items within distance \<open>n\<close> of the query \<open>q\<close>.
\<close>

definition linear_scan :: "('a \<Rightarrow> 'a \<Rightarrow> int) \<Rightarrow> 'a list \<Rightarrow> 'a \<Rightarrow> int \<Rightarrow> (int \<times> 'a) list" where
  "linear_scan f xs q n = map (\<lambda>x. (f x q, x)) (filter (\<lambda>x. f x q \<le> n) xs)"

text \<open>The same selection on a multiset of items.\<close>

definition within :: "('a \<Rightarrow> 'a \<Rightarrow> int) \<Rightarrow> 'a \<Rightarrow> int \<Rightarrow> 'a multiset \<Rightarrow> (int \<times> 'a) multiset" where
  "within f q n M = image_mset (\<lambda>x. (f x q, x)) (filter_mset (\<lambda>x. f x q \<le> n) M)"

text \<open>
  Construction as the specification words it: an empty tree bound to the distance
  function, then each element of \<open>items\<close> inserted in order by single-item insertion.
\<close>

definition new_by_insertion :: "('a \<Rightarrow> 'a \<Rightarrow> int) \<Rightarrow> 'a list \<Rightarrow> 'a bktree" where
  "new_by_insertion f items = foldl add \<lparr>distance_func = f, tree = None\<rparr> items"

subsection \<open>The methods on a store of objects\<close>

text \<open>
  For the claims about separate objects and about what a method changes, the same methods
  are read once more with Python's objects made explicit. A reference is an address in
  the store. The objects that are mutated in place live in the store: a \<^verbatim>\<open>BKTree\<close>
  instance with its attributes \<^verbatim>\<open>distance_func\<close> and \<^verbatim>\<open>tree\<close>, a children dict, the
  deque and the result list of a traversal. A node tuple \<^verbatim>\<open>(item, children_dict)\<close> is
  immutable and is kept as a value holding the reference of its dict; items are values.
\<close>

type_synonym ref = nat

datatype 'a pnode = PNode (pitem: 'a) (pchildren: ref)

datatype 'a obj =
    Inst "'a \<Rightarrow> 'a \<Rightarrow> int" "'a pnode option"
  | Dict "(int \<times> 'a pnode) list"
  | Deque "'a pnode list"
  | PyList "(int \<times> 'a) list"

record 'a heap =
  objs :: "ref \<Rightarrow> 'a obj option"
  next_ref :: ref

text \<open>
  Creating an object (\<^verbatim>\<open>{}\<close>, \<^verbatim>\<open>[]\<close>, \<^verbatim>\<open>deque(...)\<close>, a new instance) takes the next
  unused reference; assigning into an object replaces what the store holds at its
  reference.
\<close>

definition alloc :: "'a obj \<Rightarrow> 'a heap \<Rightarrow> ref \<times> 'a heap" where
  "alloc ob h =
     (next_ref h, \<lparr>objs = (objs h)(next_ref h \<mapsto> ob), next_ref = Suc (next_ref h)\<rparr>)"

definition store :: "ref \<Rightarrow> 'a obj \<Rightarrow> 'a heap \<Rightarrow> 'a heap" where
  "store r ob h = h\<lparr>objs := (objs h)(r \<mapsto> ob)\<rparr>"

text \<open>
  A method returns \<open>None\<close> when it returns nothing: its loop runs forever, or a reference
  leads to no object of the kind the code expects (which no state of a Python program
  does). \<^verbatim>\<open>candidates.extend\<close>, \<^verbatim>\<open>found.append\<close> and \<^verbatim>\<open>found.sort(key=_getitem0)\<close>:
\<close>

definition deque_extend :: "ref \<Rightarrow> 'a pnode list \<Rightarrow> 'a heap \<Rightarrow> 'a heap option" where
  "deque_extend r ps h =
     (case objs h r of Some (Deque qs) \<Rightarrow> Some (store r (Deque (qs @ ps)) h) | _ \<Rightarrow> None)"

definition list_append :: "ref \<Rightarrow> int \<times> 'a \<Rightarrow> 'a heap \<Rightarrow> 'a heap option" where
  "list_append r v h =
     (case objs h r of Some (PyList vs) \<Rightarrow> Some (store r (PyList (vs @ [v])) h) | _ \<Rightarrow> None)"

definition list_sort :: "ref \<Rightarrow> 'a heap \<Rightarrow> 'a heap option" where
  "list_sort r h =
     (case objs h r of Some (PyList vs) \<Rightarrow> Some (store r (PyList (sort_key fst vs)) h)
      | _ \<Rightarrow> None)"

text \<open>
  The \<^verbatim>\<open>while True\<close> loop of \<^verbatim>\<open>add\<close>: \<^verbatim>\<open>children[distance] = (item, {})\<close> creates an
  empty dict and assigns into the dict of the node reached.
\<close>

partial_function (option) add_loop_h ::
  "('a \<Rightarrow> 'a \<Rightarrow> int) \<Rightarrow> 'a \<Rightarrow> 'a pnode \<Rightarrow> 'a heap \<Rightarrow> 'a heap option" where
  "add_loop_h f x node h =
     (case node of PNode parent children' \<Rightarrow>
        (case objs h children' of
           Some (Dict al) \<Rightarrow>
             (let distance = f x parent in
              case map_of al distance of
                None \<Rightarrow>
                  (let (r, h1) = alloc (Dict []) h
                   in Some (store children' (Dict (al @ [(distance, PNode x r)])) h1))
              | Some node' \<Rightarrow> add_loop_h f x node' h)
         | _ \<Rightarrow> None))"

text \<open>\<^verbatim>\<open>add\<close>: on an empty tree \<^verbatim>\<open>self.tree = (item, {})\<close>, otherwise the loop.\<close>

definition add_h :: "ref \<Rightarrow> 'a \<Rightarrow> 'a heap \<Rightarrow> 'a heap option" where
  "add_h self x h =
     (case objs h self of
        Some (Inst f None) \<Rightarrow>
          (let (r, h1) = alloc (Dict []) h in Some (store self (Inst f (Some (PNode x r))) h1))
      | Some (Inst f (Some node)) \<Rightarrow> add_loop_h f x node h
      | _ \<Rightarrow> None)"

text \<open>
  The constructor: a new instance with \<^verbatim>\<open>self.distance_func = distance_func\<close> and
  \<^verbatim>\<open>self.tree = None\<close>, then \<^verbatim>\<open>for item in items: _add(item)\<close>.
\<close>

fun init_loop_h :: "ref \<Rightarrow> 'a list \<Rightarrow> 'a heap \<Rightarrow> 'a heap option" where
  "init_loop_h self [] h = Some h"
| "init_loop_h self (x # xs) h = do { h1 \<leftarrow> add_h self x h; init_loop_h self xs h1 }"

definition BKTree_h :: "('a \<Rightarrow> 'a \<Rightarrow> int) \<Rightarrow> 'a list \<Rightarrow> 'a heap \<Rightarrow> (ref \<times> 'a heap) option" where
  "BKTree_h f items h =
     (let (self, h1) = alloc (Inst f None) h
      in do { h2 \<leftarrow> init_loop_h self items h1; Some (self, h2) })"

text \<open>
  \<^verbatim>\<open>find\<close>: a new deque holding the root and a new empty list, the \<^verbatim>\<open>while candidates\<close>
  loop, the sort, and the list returned by reference.
\<close>

definition selected_h :: "int \<Rightarrow> int \<Rightarrow> (int \<times> 'a pnode) list \<Rightarrow> 'a pnode list" where
  "selected_h lower upper al = map snd (filter (\<lambda>(d, c). lower \<le> d \<and> d \<le> upper) al)"

partial_function (option) find_loop_h ::
  "('a \<Rightarrow> 'a \<Rightarrow> int) \<Rightarrow> 'a \<Rightarrow> int \<Rightarrow> ref \<Rightarrow> ref \<Rightarrow> 'a heap \<Rightarrow> 'a heap option" where
  "find_loop_h f x n candidates found h =
     (case objs h candidates of
        Some (Deque []) \<Rightarrow> Some h
      | Some (Deque (PNode candidate children' # rest)) \<Rightarrow>
          (let h1 = store candidates (Deque rest) h;
               distance = f candidate x
           in do {
             h2 \<leftarrow> (if distance \<le> n then list_append found (distance, candidate) h1 else Some h1);
             h3 \<leftarrow> (case objs h2 children' of
                      Some (Dict al) \<Rightarrow>
                        (if al \<noteq> []
                         then deque_extend candidates
                                (selected_h (distance - n) (distance + n) al) h2
                         else Some h2)
                    | _ \<Rightarrow> None);
             find_loop_h f x n candidates found h3
           })
      | _ \<Rightarrow> None)"

definition find_h :: "ref \<Rightarrow> 'a \<Rightarrow> int \<Rightarrow> 'a heap \<Rightarrow> (ref \<times> 'a heap) option" where
  "find_h self x n h =
     (case objs h self of
        Some (Inst f None) \<Rightarrow> Some (alloc (PyList []) h)
      | Some (Inst f (Some root)) \<Rightarrow>
          (let (candidates, h1) = alloc (Deque [root]) h;
               (found, h2) = alloc (PyList []) h1
           in do {
             h3 \<leftarrow> find_loop_h f x n candidates found h2;
             h4 \<leftarrow> list_sort found h3;
             Some (found, h4)
           })
      | _ \<Rightarrow> None)"

text \<open>
  \<^verbatim>\<open>__iter__\<close>, run to its end: a new deque holding the root, and the loop that yields an
  item and extends the deque with \<^verbatim>\<open>children.values()\<close>.
\<close>

partial_function (option) iter_loop_h :: "ref \<Rightarrow> 'a heap \<Rightarrow> ('a list \<times> 'a heap) option" where
  "iter_loop_h candidates h =
     (case objs h candidates of
        Some (Deque []) \<Rightarrow> Some ([], h)
      | Some (Deque (PNode candidate children' # rest)) \<Rightarrow>
          (let h1 = store candidates (Deque rest) h
           in do {
             h2 \<leftarrow> (case objs h1 children' of
                      Some (Dict al) \<Rightarrow> deque_extend candidates (map snd al) h1
                    | _ \<Rightarrow> None);
             (ys, h3) \<leftarrow> iter_loop_h candidates h2;
             Some (candidate # ys, h3)
           })
      | _ \<Rightarrow> None)"

definition iter_h :: "ref \<Rightarrow> 'a heap \<Rightarrow> ('a list \<times> 'a heap) option" where
  "iter_h self h =
     (case objs h self of
        Some (Inst f None) \<Rightarrow> Some ([], h)
      | Some (Inst f (Some root)) \<Rightarrow>
          (let (candidates, h1) = alloc (Deque [root]) h in iter_loop_h candidates h1)
      | _ \<Rightarrow> None)"

subsection \<open>Trees laid out in the store\<close>

text \<open>
  A tree together with the reference of each node's dict; \<open>erase\<close> forgets the
  references, \<open>pn_of\<close> is the node tuple, \<open>entries\<close> the dict of a list of children.
\<close>

datatype 'a rnode = RNode (ritem: 'a) (rref: ref) (rchildren: "(int \<times> 'a rnode) list")

fun erase :: "'a rnode \<Rightarrow> 'a node" where
  "erase (RNode x r cs) = Node x (map (\<lambda>(d, c). (d, erase c)) cs)"

definition pn_of :: "'a rnode \<Rightarrow> 'a pnode" where
  "pn_of rn = PNode (ritem rn) (rref rn)"

definition entries :: "(int \<times> 'a rnode) list \<Rightarrow> (int \<times> 'a pnode) list" where
  "entries cs = map (\<lambda>(d, c). (d, pn_of c)) cs"

text \<open>The references of the dicts of a tree, and of a list of children.\<close>

fun ref_list :: "'a rnode \<Rightarrow> ref list" where
  "ref_list (RNode x r cs) = r # concat (map (\<lambda>(d, c). ref_list c) cs)"

definition child_refs :: "(int \<times> 'a rnode) list \<Rightarrow> ref list" where
  "child_refs cs = concat (map (\<lambda>(d, c). ref_list c) cs)"

text \<open>
  The store holds a tree when each of its dicts is found at its reference with the entries
  of its children.
\<close>

fun holds :: "'a heap \<Rightarrow> 'a rnode \<Rightarrow> bool" where
  "holds h (RNode x r cs) =
     (objs h r = Some (Dict (entries cs)) \<and> (\<forall>(d, c) \<in> set cs. holds h c))"

text \<open>
  The descent of \<^verbatim>\<open>add\<close> on a tree with its references, the dict of the new leaf at
  the reference \<open>new\<close>: what \<open>add_loop_h\<close> leaves in the store, and \<open>add_node\<close> once the
  references are erased.
\<close>

lemma map_of_rsize:
  "map_of cs d = Some c \<Longrightarrow> size c < Suc (size_list (size_prod (\<lambda>_. 0) size) cs)"
  for c :: "'a rnode"
  by (induction cs) (auto split: if_splits)

function add_rnode :: "('a \<Rightarrow> 'a \<Rightarrow> int) \<Rightarrow> 'a \<Rightarrow> ref \<Rightarrow> 'a rnode \<Rightarrow> 'a rnode" where
  "add_rnode f x new (RNode parent r cs) =
     (let distance = f x parent in
      case map_of cs distance of
        None \<Rightarrow> RNode parent r (cs @ [(distance, RNode x new [])])
      | Some c \<Rightarrow> RNode parent r (AList.update distance (add_rnode f x new c) cs))"
  by pat_completeness auto
termination
  by (relation "measure (\<lambda>(f, x, new, rn). size rn)") (auto dest: map_of_rsize)

text \<open>
  A store is well formed when nothing lies at or beyond the next unused reference. An
  instance holds a tree when its \<^verbatim>\<open>tree\<close> attribute is the root's tuple, the store holds
  the tree, no dict is shared between two nodes, and every dict was created after the
  instance.
\<close>

definition heap_ok :: "'a heap \<Rightarrow> bool" where
  "heap_ok h = (\<forall>r. next_ref h \<le> r \<longrightarrow> objs h r = None)"

definition tree_refs :: "'a rnode option \<Rightarrow> ref set" where
  "tree_refs rt = (case rt of None \<Rightarrow> {} | Some rn \<Rightarrow> set (ref_list rn))"

definition erase_tree :: "('a \<Rightarrow> 'a \<Rightarrow> int) \<Rightarrow> 'a rnode option \<Rightarrow> 'a bktree" where
  "erase_tree f rt = \<lparr>distance_func = f, tree = map_option erase rt\<rparr>"

definition tree_at :: "'a heap \<Rightarrow> ref \<Rightarrow> ('a \<Rightarrow> 'a \<Rightarrow> int) \<Rightarrow> 'a rnode option \<Rightarrow> bool" where
  "tree_at h self f rt =
     (objs h self = Some (Inst f (map_option pn_of rt)) \<and>
      (case rt of None \<Rightarrow> True | Some rn \<Rightarrow> holds h rn \<and> distinct (ref_list rn)) \<and>
      self < next_ref h \<and> (\<forall>r \<in> tree_refs rt. self < r \<and> r < next_ref h))"

definition empty_heap :: "'a heap" where
  "empty_heap = \<lparr>objs = Map.empty, next_ref = 0\<rparr>"

text \<open>
  The states of an instance a program reaches: constructed in a well-formed store, then
  after any of its methods, or after any other object is created.
\<close>

inductive reachable :: "('a \<Rightarrow> 'a \<Rightarrow> int) \<Rightarrow> ref \<Rightarrow> 'a heap \<Rightarrow> bool" where
  new: "heap_ok h0 \<Longrightarrow> BKTree_h f xs h0 = Some (self, h) \<Longrightarrow> reachable f self h"
| add: "reachable f self h \<Longrightarrow> add_h self x h = Some h' \<Longrightarrow> reachable f self h'"
| find: "reachable f self h \<Longrightarrow> find_h self x n h = Some (res, h') \<Longrightarrow> reachable f self h'"
| iter: "reachable f self h \<Longrightarrow> iter_h self h = Some (ys, h') \<Longrightarrow> reachable f self h'"
| other: "reachable f self h \<Longrightarrow> reachable f self (snd (alloc ob h))"

section \<open>The examples of the docstrings\<close>

lemma doctest_hamming_distance:
  "map (\<lambda>x. hamming_distance x 15) [0, 8, 10, 12, 14, 15] = [4, 3, 2, 2, 1, 0]"
  by code_simp

lemma doctest_init:
  "iter (BKTree hamming_distance []) = []"
  "mset (iter (BKTree hamming_distance [0, 4, 5])) = {#0, 4, 5#}"
  by code_simp+

lemma doctest_find:
  "find_bk (BKTree hamming_distance []) 13 1 = []"
  "find_bk (add (BKTree hamming_distance []) 0) 1 1 = [(1, 0)]"
  "iter (init_loop (add (BKTree hamming_distance []) 0) [0, 4, 5, 14, 15]) = [0, 0, 4, 5, 14, 15]"
  "find_bk (init_loop (add (BKTree hamming_distance []) 0) [0, 4, 5, 14, 15]) 13 1 =
     [(1, 5), (1, 15)]"
  "find_bk (init_loop (add (BKTree hamming_distance []) 0) [0, 4, 5, 14, 15]) 13 2 =
     [(1, 5), (1, 15), (2, 4), (2, 14)]"
  by code_simp+

section \<open>The Hamming distance\<close>

lemma bits_rec: "{i. bit k i} = (if odd k then {0} else {}) \<union> Suc ` {i. bit (k div 2) i}"
  for k :: int
proof (rule set_eqI)
  fix i
  show "i \<in> {i. bit k i} \<longleftrightarrow> i \<in> (if odd k then {0} else {}) \<union> Suc ` {i. bit (k div 2) i}"
    by (cases i) (auto simp: bit_0 bit_Suc)
qed

lemma bin_digits_bits:
  "0 \<le> k \<Longrightarrow> finite {i. bit k i} \<and> count_list (bin_digits k) CHR ''1'' = card {i. bit k i}"
proof (induction k rule: bin_digits.induct)
  case (1 k)
  show ?case
  proof (cases "k < 2")
    case True
    with 1(2) have "k = 0 \<or> k = 1" by auto
    then show ?thesis
    proof
      assume "k = 0"
      then show ?thesis by (simp add: bin_digits.simps)
    next
      assume k: "k = 1"
      have "{i. bit (1::int) i} = {0}" by (auto simp: bit_1_iff)
      with k show ?thesis by (simp add: bin_digits.simps)
    qed
  next
    case False
    with 1(2) have "0 \<le> k div 2" by simp
    from 1(1) [OF False this]
    have fin: "finite {i. bit (k div 2) i}"
      and cnt: "count_list (bin_digits (k div 2)) CHR ''1'' = card {i. bit (k div 2) i}"
      by simp_all
    have disj: "(if odd k then {0} else {}) \<inter> Suc ` {i. bit (k div 2) i} = {}"
      by auto
    have "card {i. bit k i} =
        card (if odd k then {0::nat} else {}) + card (Suc ` {i. bit (k div 2) i})"
      unfolding bits_rec [of k] using fin disj by (intro card_Un_disjoint) auto
    also have "card (Suc ` {i. bit (k div 2) i}) = card {i. bit (k div 2) i}"
      by (rule card_image) simp
    finally have card: "card {i. bit k i} =
        (if odd k then 1 else 0) + card {i. bit (k div 2) i}"
      by simp
    have "finite {i. bit k i}"
      unfolding bits_rec [of k] using fin by simp
    moreover have "count_list (bin_digits k) CHR ''1'' = card {i. bit k i}"
      unfolding card using False cnt
      by (subst bin_digits.simps) (auto simp: odd_iff_mod_2_eq_one)
    ultimately show ?thesis ..
  qed
qed

lemma differ_xor: "{i. bit x i \<noteq> bit y i} = {i. bit (x XOR y) i}" for x y :: int
  by (auto simp: bit_xor_iff)

lemma count_bin: "0 \<le> k \<Longrightarrow> count_list (bin k) CHR ''1'' = count_list (bin_digits k) CHR ''1''"
  by (simp add: bin_def)

lemma hamming_card:
  assumes "0 \<le> x" "0 \<le> y"
  shows "hamming_distance x y = int (card {i. bit x i \<noteq> bit y i})"
proof -
  from assms have nonneg: "0 \<le> x XOR y" by simp
  then have "count_list (bin (x XOR y)) CHR ''1'' = count_list (bin_digits (x XOR y)) CHR ''1''"
    by (rule count_bin)
  also from bin_digits_bits [OF nonneg] have "\<dots> = card {i. bit (x XOR y) i}" ..
  also have "\<dots> = card {i. bit x i \<noteq> bit y i}"
    by (simp only: differ_xor)
  finally show ?thesis by (simp only: hamming_distance_def)
qed

lemma hamming_finite:
  fixes x y :: int
  assumes "0 \<le> x" "0 \<le> y"
  shows "finite {i. bit x i \<noteq> bit y i}"
proof -
  from assms have "0 \<le> x XOR y" by simp
  from bin_digits_bits [OF this] have "finite {i. bit (x XOR y) i}" ..
  then show ?thesis by (simp only: differ_xor)
qed

lemma hamming_sym: "hamming_distance x y = hamming_distance y x"
  by (simp add: hamming_distance_def xor.commute)

lemma hamming_self: "hamming_distance x x = 0"
  by (simp add: hamming_distance_def bin_def bin_digits.simps)

lemma hamming_triangle:
  assumes "0 \<le> a" "0 \<le> b" "0 \<le> c"
  shows "hamming_distance a c \<le> hamming_distance a b + hamming_distance b c"
proof -
  have "{i. bit a i \<noteq> bit c i} \<subseteq> {i. bit a i \<noteq> bit b i} \<union> {i. bit b i \<noteq> bit c i}"
    by auto
  moreover have "finite ({i. bit a i \<noteq> bit b i} \<union> {i. bit b i \<noteq> bit c i})"
    using hamming_finite [OF assms(1,2)] hamming_finite [OF assms(2,3)] by (rule finite_UnI)
  ultimately have "card {i. bit a i \<noteq> bit c i} \<le>
      card ({i. bit a i \<noteq> bit b i} \<union> {i. bit b i \<noteq> bit c i})"
    by (intro card_mono)
  also have "\<dots> \<le> card {i. bit a i \<noteq> bit b i} + card {i. bit b i \<noteq> bit c i}"
    by (rule card_Un_le)
  finally show ?thesis
    unfolding hamming_card [OF assms(1,3)] hamming_card [OF assms(1,2)] hamming_card [OF assms(2,3)]
    by linarith
qed

section \<open>Insertion keeps every item\<close>

lemma items_update:
  "map_of cs d = Some c \<Longrightarrow>
   (\<Sum>(d, c) \<leftarrow> AList.update d c' cs. items_of c) + items_of c =
   (\<Sum>(d, c) \<leftarrow> cs. items_of c) + items_of c'"
  by (induction cs) (auto split: if_splits)

lemma items_of_add_node: "items_of (add_node f x nd) = items_of nd + {#x#}"
proof (induction f x nd rule: add_node.induct)
  case (1 f x parent cs)
  show ?case
  proof (cases "map_of cs (f x parent)")
    case None
    then show ?thesis by simp
  next
    case (Some c)
    from items_update [OF Some, of "add_node f x c"] 1 [OF refl Some]
    show ?thesis using Some by (simp add: add.commute add.left_commute)
  qed
qed

lemma items_of_tree_add: "items_of_tree (add t x) = items_of_tree t + {#x#}"
  by (simp add: items_of_tree_def add_def items_of_add_node split: option.splits)

lemma items_of_tree_init_loop: "items_of_tree (init_loop t xs) = items_of_tree t + mset xs"
  by (induction xs arbitrary: t) (simp_all add: items_of_tree_add)

lemma items_of_tree_BKTree: "items_of_tree (BKTree f xs) = mset xs"
  by (simp add: BKTree_def items_of_tree_init_loop) (simp add: items_of_tree_def)

lemma distance_func_add [simp]: "distance_func (add t x) = distance_func t"
  by (simp add: add_def split: option.splits)

lemma distance_func_init_loop [simp]: "distance_func (init_loop t xs) = distance_func t"
  by (induction xs arbitrary: t) simp_all

lemma distance_func_BKTree [simp]: "distance_func (BKTree f xs) = f"
  by (simp add: BKTree_def)

lemma tree_BKTree_Nil [simp]: "tree (BKTree f []) = None"
  by (simp add: BKTree_def)

section \<open>Iteration\<close>

lemma sum_values: "sum_list (map (items_of \<circ> snd) cs) = (\<Sum>(d, c) \<leftarrow> cs. items_of c)"
  by (induction cs) auto

lemma mset_iter_loop: "mset (iter_loop cands) = (\<Sum>c \<leftarrow> cands. items_of c)"
proof (induction cands rule: iter_loop.induct)
  case 1
  show ?case by simp
next
  case (2 candidate cs candidates)
  then show ?case by (simp add: sum_values)
qed

lemma mset_iter: "mset (iter t) = items_of_tree t"
  by (simp add: iter_def items_of_tree_def mset_iter_loop split: option.splits)

text \<open>
  C3. Whatever the distance function and the sequence of items inserted into an empty
  tree, duplicates included, iterating over the tree yields each inserted item as often
  as it was inserted and nothing else; iterating over the empty tree yields nothing.
\<close>

theorem iter_roundtrip:
  "mset (iter (BKTree f xs)) = mset xs \<and> iter (BKTree f []) = []"
proof
  show "mset (iter (BKTree f xs)) = mset xs"
    by (simp only: mset_iter items_of_tree_BKTree)
  show "iter (BKTree f []) = []"
    by (simp add: iter_def)
qed

section \<open>The order of the result of find\<close>

text \<open>
  C2. The list \<^verbatim>\<open>find\<close> returns is sorted ascending by the distance component of its
  pairs, for every tree, item and radius.
\<close>

theorem find_sorted: "sorted (map fst (find_bk t x n))"
  by (simp add: find_bk_def split: option.splits)

section \<open>The keys of the children\<close>

lemma item_add_node [simp]: "item (add_node f x nd) = item nd"
  by (cases nd) (simp add: Let_def split: option.splits)

lemma set_update_subset:
  "map_of cs d = Some c \<Longrightarrow> set (AList.update d c' cs) \<subseteq> insert (d, c') (set cs)"
  by (induction cs) (auto split: if_splits)

lemma keys_ok_add_node: "keys_ok f nd \<Longrightarrow> keys_ok f (add_node f x nd)"
proof (induction f x nd rule: add_node.induct)
  case (1 f x parent cs)
  show ?case
  proof (cases "map_of cs (f x parent)")
    case None
    with 1(2) show ?thesis by auto
  next
    case (Some c)
    from Some have in_cs: "(f x parent, c) \<in> set cs" by (rule map_of_SomeD)
    with 1(2) have c: "keys_ok f c" "f (item c) parent = f x parent" by auto
    from 1(1) [OF refl Some c(1)] have c': "keys_ok f (add_node f x c)" .
    show ?thesis using Some 1(2) c c' set_update_subset [OF Some, of "add_node f x c"]
      by auto
  qed
qed

lemma keys_ok_tree_add: "keys_ok_tree t \<Longrightarrow> keys_ok_tree (add t x)"
  by (auto simp: keys_ok_tree_def add_def keys_ok_add_node split: option.splits)

lemma keys_ok_tree_init_loop: "keys_ok_tree t \<Longrightarrow> keys_ok_tree (init_loop t xs)"
  by (induction xs arbitrary: t) (simp_all add: keys_ok_tree_add)

text \<open>
  C4. In the tree built from any sequence of items by \<^verbatim>\<open>add\<close>, starting empty, every
  child stored under key \<open>d\<close> of a node has an item whose distance to the node's item,
  computed by the tree's distance function, is \<open>d\<close>; and \<^verbatim>\<open>add\<close> keeps this true of
  any tree of which it is true.
\<close>

theorem children_keys_invariant:
  "keys_ok_tree (BKTree f xs) \<and> (keys_ok_tree t \<longrightarrow> keys_ok_tree (add t x))"
proof -
  have "keys_ok_tree \<lparr>distance_func = f, tree = None\<rparr>"
    by (simp add: keys_ok_tree_def)
  then have "keys_ok_tree (BKTree f xs)"
    unfolding BKTree_def by (rule keys_ok_tree_init_loop)
  then show ?thesis by (simp add: keys_ok_tree_add)
qed

theorem children_keys_invariant_witness:
  "keys_ok_tree (BKTree hamming_distance [0, 4, 5, 14, 15]) \<and>
   keys_ok_tree (add (BKTree hamming_distance [0, 4, 5, 14, 15]) 7) \<and>
   tree (add (BKTree hamming_distance [0, 4, 5, 14, 15]) 7) =
     Some (Node 0 [(1, Node 4 []), (2, Node 5 []), (3, Node 14 [(2, Node 7 [])]),
                   (4, Node 15 [])])"
proof -
  have "tree (add (BKTree hamming_distance [0, 4, 5, 14, 15]) 7) =
     Some (Node 0 [(1, Node 4 []), (2, Node 5 []), (3, Node 14 [(2, Node 7 [])]),
                   (4, Node 15 [])])"
    by code_simp
  with children_keys_invariant
    [of hamming_distance "[0, 4, 5, 14, 15]" "BKTree hamming_distance [0, 4, 5, 14, 15]" 7]
  show ?thesis by simp
qed

section \<open>The children lists are dicts\<close>

lemma dict_ok_add_node: "dict_ok nd \<Longrightarrow> dict_ok (add_node f x nd)"
proof (induction f x nd rule: add_node.induct)
  case (1 f x parent cs)
  show ?case
  proof (cases "map_of cs (f x parent)")
    case None
    then have "f x parent \<notin> fst ` set cs" by (simp add: map_of_eq_None_iff)
    with 1(2) None show ?thesis by auto
  next
    case (Some c)
    from Some have "(f x parent, c) \<in> set cs" by (rule map_of_SomeD)
    with 1(2) have "dict_ok c" by auto
    from 1(1) [OF refl Some this] have c': "dict_ok (add_node f x c)" .
    from 1(2) have "distinct (map fst (AList.update (f x parent) (add_node f x c) cs))"
      by (simp add: distinct_update)
    moreover have "\<forall>(d, c') \<in> set (AList.update (f x parent) (add_node f x c) cs). dict_ok c'"
      using set_update_subset [OF Some, of "add_node f x c"] c' 1(2) by auto
    ultimately show ?thesis using Some by simp
  qed
qed

lemma dict_ok_tree_add: "dict_ok_tree t \<Longrightarrow> dict_ok_tree (add t x)"
  by (auto simp: dict_ok_tree_def add_def dict_ok_add_node split: option.splits)

lemma dict_ok_tree_init_loop: "dict_ok_tree t \<Longrightarrow> dict_ok_tree (init_loop t xs)"
  by (induction xs arbitrary: t) (simp_all add: dict_ok_tree_add)

lemma dict_ok_tree_BKTree: "dict_ok_tree (BKTree f xs)"
proof -
  have "dict_ok_tree \<lparr>distance_func = f, tree = None\<rparr>"
    by (simp add: dict_ok_tree_def)
  then show ?thesis unfolding BKTree_def by (rule dict_ok_tree_init_loop)
qed

section \<open>find against the linear scan\<close>

lemma within_simps [simp]:
  "within f q n {#} = {#}"
  "within f q n (M + N) = within f q n M + within f q n N"
  "within f q n (add_mset y M) =
     (if f y q \<le> n then add_mset (f y q, y) (within f q n M) else within f q n M)"
  by (simp_all add: within_def)

lemma within_sum_list:
  "within f q n (\<Sum>(d, c) \<leftarrow> cs. items_of c) = (\<Sum>(d, c) \<leftarrow> cs. within f q n (items_of c))"
  by (induction cs) auto

lemma within_empty: "(\<And>y. y \<in># M \<Longrightarrow> \<not> f y q \<le> n) \<Longrightarrow> within f q n M = {#}"
  by (auto simp: within_def filter_mset_eq_mempty_iff)

lemma mset_linear_scan: "mset (linear_scan f xs q n) = within f q n (mset xs)"
  by (simp add: linear_scan_def within_def)

lemma subtree_ok_add_node: "subtree_ok f nd \<Longrightarrow> subtree_ok f (add_node f x nd)"
proof (induction f x nd rule: add_node.induct)
  case (1 f x parent cs)
  show ?case
  proof (cases "map_of cs (f x parent)")
    case None
    with 1(2) show ?thesis by auto
  next
    case (Some c)
    from Some have in_cs: "(f x parent, c) \<in> set cs" by (rule map_of_SomeD)
    with 1(2) have c: "subtree_ok f c" "\<forall>y \<in># items_of c. f y parent = f x parent" by auto
    from 1(1) [OF refl Some c(1)] have c': "subtree_ok f (add_node f x c)" .
    have new: "\<forall>(d', c') \<in> insert (f x parent, add_node f x c) (set cs).
        (\<forall>y \<in># items_of c'. f y parent = d') \<and> subtree_ok f c'"
      using 1(2) c c' by (auto simp: items_of_add_node)
    from set_update_subset [OF Some, of "add_node f x c"] new
    have "\<forall>(d', c') \<in> set (AList.update (f x parent) (add_node f x c) cs).
        (\<forall>y \<in># items_of c'. f y parent = d') \<and> subtree_ok f c'"
      by blast
    with Some show ?thesis by simp
  qed
qed

lemma subtree_ok_tree_add: "subtree_ok_tree t \<Longrightarrow> subtree_ok_tree (add t x)"
  by (auto simp: subtree_ok_tree_def add_def subtree_ok_add_node split: option.splits)

lemma subtree_ok_tree_init_loop: "subtree_ok_tree t \<Longrightarrow> subtree_ok_tree (init_loop t xs)"
  by (induction xs arbitrary: t) (simp_all add: subtree_ok_tree_add)

lemma subtree_ok_tree_BKTree: "subtree_ok_tree (BKTree f xs)"
proof -
  have "subtree_ok_tree \<lparr>distance_func = f, tree = None\<rparr>"
    by (simp add: subtree_ok_tree_def)
  then show ?thesis unfolding BKTree_def by (rule subtree_ok_tree_init_loop)
qed

lemma pruning_sound:
  assumes sym: "\<And>a b. f a b = f b a"
    and tri: "\<And>a b c. f a c \<le> f a b + f b c"
    and inv: "\<forall>(d, c) \<in> set cs. \<forall>y \<in># items_of c. f y p = d"
  shows "(\<Sum>c \<leftarrow> selected (f p q - n) (f p q + n) cs. within f q n (items_of c)) =
         (\<Sum>(d, c) \<leftarrow> cs. within f q n (items_of c))"
  using inv
proof (induction cs)
  case Nil
  show ?case by (simp add: selected_def)
next
  case (Cons dc cs)
  obtain d c where dc: "dc = (d, c)" by (cases dc)
  from Cons.prems have rest: "\<forall>(d, c) \<in> set cs. \<forall>y \<in># items_of c. f y p = d"
    and here: "\<And>y. y \<in># items_of c \<Longrightarrow> f y p = d"
    by (auto simp: dc)
  note IH = Cons.IH [OF rest]
  show ?case
  proof (cases "f p q - n \<le> d \<and> d \<le> f p q + n")
    case True
    with IH show ?thesis by (simp add: dc selected_def)
  next
    case False
    have "within f q n (items_of c) = {#}"
    proof (rule within_empty)
      fix y assume y: "y \<in># items_of c"
      show "\<not> f y q \<le> n"
      proof
        assume le: "f y q \<le> n"
        from here [OF y] have d: "f y p = d" .
        have "f p q \<le> f p y + f y q" by (rule tri)
        with sym [of p y] d le have 1: "f p q - n \<le> d" by simp
        have "f y p \<le> f y q + f q p" by (rule tri)
        with sym [of q p] d le have 2: "d \<le> f p q + n" by simp
        from False 1 2 show False by simp
      qed
    qed
    with IH False show ?thesis by (simp add: dc selected_def)
  qed
qed

lemma subtree_ok_selected:
  "subtree_ok f (Node p cs) \<Longrightarrow> c \<in> set (selected lo hi cs) \<Longrightarrow> subtree_ok f c"
  by (auto simp: selected_def)

lemma mset_find_loop:
  "\<forall>a b. f a b = f b a \<Longrightarrow> \<forall>a b c. f a c \<le> f a b + f b c \<Longrightarrow>
   \<forall>c \<in> set cands. subtree_ok f c \<Longrightarrow>
   mset (find_loop f q n cands found) =
     mset found + (\<Sum>c \<leftarrow> cands. within f q n (items_of c))"
proof (induction f q n cands found rule: find_loop.induct)
  case (1 f x n found)
  show ?case by simp
next
  case (2 f x n candidate cs candidates found)
  let ?d = "f candidate x"
  let ?found = "if ?d \<le> n then found @ [(?d, candidate)] else found"
  let ?cands = "if cs \<noteq> [] then candidates @ selected (?d - n) (?d + n) cs else candidates"
  note sym = 2(2) and tri = 2(3)
  from 2(4) have ok: "subtree_ok f (Node candidate cs)"
    and oks: "\<forall>c \<in> set candidates. subtree_ok f c"
    by simp_all
  have cands_eq: "?cands = candidates @ selected (?d - n) (?d + n) cs"
    by (simp add: selected_def)
  have "\<forall>c \<in> set ?cands. subtree_ok f c"
    unfolding cands_eq using oks subtree_ok_selected [OF ok] by auto
  from 2(1) [OF refl refl refl sym tri this]
  have IH: "mset (find_loop f x n ?cands ?found) =
        mset ?found + (\<Sum>c \<leftarrow> ?cands. within f x n (items_of c))" .
  have step: "find_loop f x n (Node candidate cs # candidates) found =
        find_loop f x n ?cands ?found"
    by (simp only: find_loop.simps Let_def)
  have sums: "(\<Sum>c \<leftarrow> ?cands. within f x n (items_of c)) =
      (\<Sum>c \<leftarrow> candidates. within f x n (items_of c)) +
      (\<Sum>(d, c) \<leftarrow> cs. within f x n (items_of c))"
  proof -
    from ok have "\<forall>(d, c) \<in> set cs. \<forall>y \<in># items_of c. f y candidate = d"
      by auto
    with sym tri have "(\<Sum>c \<leftarrow> selected (?d - n) (?d + n) cs. within f x n (items_of c)) =
        (\<Sum>(d, c) \<leftarrow> cs. within f x n (items_of c))"
      by (intro pruning_sound) auto
    then show ?thesis unfolding cands_eq by simp
  qed
  have "mset ?found = mset found + within f x n {#candidate#}"
    by simp
  then show ?case
    unfolding step IH sums by (simp add: within_sum_list)
qed

text \<open>
  C1. For a distance function that satisfies the triangle inequality, is symmetric and
  gives 0 from an item to itself, a tree built by inserting the items \<open>xs\<close>, a query
  \<open>q\<close> and a radius \<open>n \<ge> 0\<close>: \<^verbatim>\<open>find(q, n)\<close> returns, as a multiset, the pairs
  \<open>(distance_func x q, x)\<close> for the inserted items \<open>x\<close> with \<open>distance_func x q \<le> n\<close>,
  which is what the linear scan over \<open>xs\<close> returns; on an empty tree it returns the empty
  list.
\<close>

theorem find_linear_scan:
  assumes "\<forall>a b c. f a c \<le> f a b + f b c" and "\<forall>a b. f a b = f b a" and "\<forall>a. f a a = 0"
    and "0 \<le> n"
  shows "mset (find_bk (BKTree f xs) q n) = mset (linear_scan f xs q n) \<and>
         find_bk (BKTree f []) q n = []"
proof
  show "find_bk (BKTree f []) q n = []" by (simp add: find_bk_def)
  show "mset (find_bk (BKTree f xs) q n) = mset (linear_scan f xs q n)"
  proof (cases "tree (BKTree f xs)")
    case None
    with items_of_tree_BKTree [of f xs] have "mset xs = {#}" by (simp add: items_of_tree_def)
    with None show ?thesis by (simp add: find_bk_def linear_scan_def)
  next
    case (Some root)
    with subtree_ok_tree_BKTree [of f xs] have ok: "\<forall>c \<in> set [root]. subtree_ok f c"
      by (simp add: subtree_ok_tree_def)
    from Some items_of_tree_BKTree [of f xs] have items: "items_of root = mset xs"
      by (simp add: items_of_tree_def)
    from mset_find_loop [OF assms(2) assms(1) ok, of q n "[]"] items Some
    show ?thesis by (simp add: find_bk_def mset_linear_scan)
  qed
qed

theorem find_linear_scan_witness:
  "(\<forall>a b c. hamming_distance (int a) (int c)
       \<le> hamming_distance (int a) (int b) + hamming_distance (int b) (int c)) \<and>
   (\<forall>a b. hamming_distance (int a) (int b) = hamming_distance (int b) (int a)) \<and>
   (\<forall>a. hamming_distance (int a) (int a) = 0) \<and> (0::int) \<le> 2 \<and>
   mset (find_bk (BKTree (\<lambda>a b. hamming_distance (int a) (int b)) [0, 4, 5, 14, 15]) 13 2) =
   mset (linear_scan (\<lambda>a b. hamming_distance (int a) (int b)) [0, 4, 5, 14, 15] 13 2) \<and>
   find_bk (BKTree (\<lambda>a b. hamming_distance (int a) (int b)) [0, 4, 5, 14, 15]) 13 2 =
     [(1, 5), (1, 15), (2, 4), (2, 14)]"
proof -
  let ?f = "\<lambda>a b :: nat. hamming_distance (int a) (int b)"
  have tri: "\<forall>a b c. ?f a c \<le> ?f a b + ?f b c"
    by (simp add: hamming_triangle)
  have sym: "\<forall>a b. ?f a b = ?f b a"
    by (simp add: hamming_sym)
  have zero: "\<forall>a. ?f a a = 0"
    by (simp add: hamming_self)
  have val: "find_bk (BKTree ?f [0, 4, 5, 14, 15]) 13 2 = [(1, 5), (1, 15), (2, 4), (2, 14)]"
    by code_simp
  from find_linear_scan [OF tri sym zero, of 2 "[0, 4, 5, 14, 15]" 13] tri sym zero val
  show ?thesis by simp
qed

section \<open>Negative radius\<close>

lemma find_loop_negative:
  "\<forall>a b. 0 \<le> f a b \<Longrightarrow> n < 0 \<Longrightarrow> find_loop f x n cands found = found"
proof (induction f x n cands found rule: find_loop.induct)
  case (1 f x n found)
  show ?case by simp
next
  case (2 f x n candidate cs candidates found)
  let ?d = "f candidate x"
  from 2(2) have d: "0 \<le> ?d" by simp
  with 2(3) have nle: "\<not> ?d \<le> n" by simp
  from 2(3) have sel: "selected (?d - n) (?d + n) cs = []"
    by (auto simp: selected_def filter_empty_conv)
  from 2(1) [OF refl refl refl 2(2) 2(3)] nle sel show ?case
    by (simp add: Let_def)
qed

text \<open>
  C5. For a negative radius \<open>n\<close>, every tree and every item: at every node the pruning
  test selects no child, whatever the distance function; and with a distance function
  that returns non-negative integers, as its documentation requires, \<^verbatim>\<open>find\<close> returns the
  empty list and the loop leaves \<^verbatim>\<open>found\<close> as it was, so no stored item is reported.
\<close>

theorem find_negative_radius:
  assumes "n < 0"
  shows "selected (distance_func t c x - n) (distance_func t c x + n) cs = [] \<and>
         ((\<forall>a b. 0 \<le> distance_func t a b) \<longrightarrow>
            find_bk t x n = [] \<and> find_loop (distance_func t) x n cands found = found)"
proof (intro conjI impI)
  show "selected (distance_func t c x - n) (distance_func t c x + n) cs = []"
    using assms by (auto simp: selected_def filter_empty_conv)
next
  assume nonneg: "\<forall>a b. 0 \<le> distance_func t a b"
  from nonneg assms show "find_loop (distance_func t) x n cands found = found"
    by (rule find_loop_negative)
  show "find_bk t x n = []"
  proof (cases "tree t")
    case None
    then show ?thesis by (simp add: find_bk_def)
  next
    case (Some root)
    with find_loop_negative [OF nonneg assms, of x "[root]" "[]"] show ?thesis
      by (simp add: find_bk_def)
  qed
qed

theorem find_negative_radius_witness:
  "(- 1 :: int) < 0 \<and>
   (\<forall>a b. 0 \<le> distance_func (BKTree hamming_distance [0, 4, 5, 14, 15]) a b) \<and>
   find_bk (BKTree hamming_distance [0, 4, 5, 14, 15]) 5 (- 1) = [] \<and>
   iter (BKTree hamming_distance [0, 4, 5, 14, 15]) = [0, 4, 5, 14, 15]"
proof -
  let ?t = "BKTree hamming_distance [0, 4, 5, 14, 15]"
  have nonneg: "\<forall>a b. 0 \<le> distance_func ?t a b" by (simp add: hamming_distance_def)
  have neg: "(- 1 :: int) < 0" by simp
  have it: "iter ?t = [0, 4, 5, 14, 15]" by code_simp
  from find_negative_radius [OF neg, of ?t 0 5 "[]" "[]" "[]"] nonneg
  have "find_bk ?t 5 (- 1) = []" by blast
  with nonneg neg it show ?thesis by (intro conjI)
qed

section \<open>The constructor\<close>

lemma init_loop_foldl: "init_loop t xs = foldl add t xs"
  by (induction xs arbitrary: t) simp_all

text \<open>
  C6. \<^verbatim>\<open>BKTree(f, xs)\<close> is the state reached from \<^verbatim>\<open>BKTree(f)\<close> by calling \<^verbatim>\<open>add\<close> on
  each element of \<open>xs\<close> in order, which is the construction the specification describes;
  it keeps \<open>f\<close> as its distance function, and with no items the tree is empty.
\<close>

theorem constructor_is_repeated_add:
  "BKTree f xs = foldl add (BKTree f []) xs \<and> BKTree f xs = new_by_insertion f xs \<and>
   distance_func (BKTree f xs) = f \<and> tree (BKTree f []) = None"
  using distance_func_BKTree [of f xs]
  by (simp add: BKTree_def init_loop_foldl new_by_insertion_def)

section \<open>add terminates and attaches one node\<close>

lemma add_node_terminates: "add_node_dom (f, x, nd)"
proof (induction nd rule: measure_induct_rule [where f = size])
  case (less nd)
  show ?case
  proof (rule accp.intros)
    fix y
    assume "add_node_rel y (f, x, nd)"
    then obtain parent cs c where y: "y = (f, x, c)" and nd: "nd = Node parent cs"
      and c: "map_of cs (f x parent) = Some c"
      by (rule add_node_rel.cases) auto
    from c have "size c < size nd" unfolding nd by (auto dest: map_of_size)
    then show "add_node_dom y" unfolding y by (rule less)
  qed
qed

lemma item_at_leaf: "item_at (Node x []) q = (if q = [] then Some x else None)"
  by (cases q) simp_all

lemma item_at_attach:
  "map_of cs d = None \<Longrightarrow>
   item_at (Node p (cs @ [(d, Node x [])])) q =
     (if q = [d] then Some x else item_at (Node p cs) q)"
  by (cases q) (auto simp: map_add_def item_at_leaf split: option.splits)

lemma item_at_update:
  "item_at (Node p (AList.update d c' cs)) (d # ds) = item_at c' ds"
  "d' \<noteq> d \<Longrightarrow> item_at (Node p (AList.update d c' cs)) (d' # ds) = item_at (Node p cs) (d' # ds)"
  "item_at (Node p (AList.update d c' cs)) [] = Some p"
  by (simp_all add: update_conv')

lemma add_node_path:
  "\<exists>p. item_at nd p = None \<and> item_at (add_node f x nd) p = Some x \<and>
       (\<forall>q. q \<noteq> p \<longrightarrow> item_at (add_node f x nd) q = item_at nd q)"
proof (induction f x nd rule: add_node.induct)
  case (1 f x parent cs)
  let ?d = "f x parent"
  show ?case
  proof (cases "map_of cs ?d")
    case None
    have new: "add_node f x (Node parent cs) = Node parent (cs @ [(?d, Node x [])])"
      using None by simp
    have "item_at (Node parent cs) [?d] = None" using None by simp
    moreover have "item_at (add_node f x (Node parent cs)) [?d] = Some x"
      unfolding new by (simp only: item_at_attach [OF None]) simp
    moreover have "\<forall>q. q \<noteq> [?d] \<longrightarrow>
        item_at (add_node f x (Node parent cs)) q = item_at (Node parent cs) q"
      unfolding new by (simp only: item_at_attach [OF None]) simp
    ultimately show ?thesis by blast
  next
    case (Some c)
    let ?c' = "add_node f x c"
    have new: "add_node f x (Node parent cs) = Node parent (AList.update ?d ?c' cs)"
      using Some by simp
    from 1 [OF refl Some] obtain p where p: "item_at c p = None" "item_at ?c' p = Some x"
      "\<And>q. q \<noteq> p \<Longrightarrow> item_at ?c' q = item_at c q"
      by blast
    have "item_at (Node parent cs) (?d # p) = None" using Some p by simp
    moreover have "item_at (add_node f x (Node parent cs)) (?d # p) = Some x"
      unfolding new using p(2) by (simp only: item_at_update)
    moreover have "item_at (add_node f x (Node parent cs)) q = item_at (Node parent cs) q"
      if "q \<noteq> ?d # p" for q
    proof (cases q)
      case Nil
      then show ?thesis unfolding new by (simp only: item_at_update item_at.simps)
    next
      case (Cons d' ds)
      show ?thesis
      proof (cases "d' = ?d")
        case True
        with that Cons have "ds \<noteq> p" by simp
        from p(3) [OF this] have "item_at ?c' ds = item_at c ds" .
        moreover have "item_at (Node parent cs) (?d # ds) = item_at c ds"
          using Some by simp
        ultimately show ?thesis unfolding new Cons True by (simp only: item_at_update)
      next
        case False
        then show ?thesis unfolding new Cons by (rule item_at_update(2))
      qed
    qed
    ultimately show ?thesis by blast
  qed
qed

text \<open>
  C7. The descent loop of \<^verbatim>\<open>add\<close> terminates on every node and item (every argument
  is in the domain on which its recursion is well-founded). A call of \<^verbatim>\<open>add\<close> makes the
  traversal yield the new item once more and everything else as before, so one item
  longer; and there is one path of keys that led nowhere and now leads to the new item,
  while every other path leads where it led before.
\<close>

theorem add_grows_by_one:
  "add_node_dom (f, x, nd) \<and>
   mset (iter (add t x)) = add_mset x (mset (iter t)) \<and>
   length (iter (add t x)) = Suc (length (iter t)) \<and>
   (\<exists>p. item_at_tree t p = None \<and> item_at_tree (add t x) p = Some x \<and>
        (\<forall>q. q \<noteq> p \<longrightarrow> item_at_tree (add t x) q = item_at_tree t q))"
proof (intro conjI)
  show "add_node_dom (f, x, nd)" by (rule add_node_terminates)
  show m: "mset (iter (add t x)) = add_mset x (mset (iter t))"
    by (simp add: mset_iter items_of_tree_add)
  from arg_cong [OF m, of size] show "length (iter (add t x)) = Suc (length (iter t))"
    by simp
  show "\<exists>p. item_at_tree t p = None \<and> item_at_tree (add t x) p = Some x \<and>
        (\<forall>q. q \<noteq> p \<longrightarrow> item_at_tree (add t x) q = item_at_tree t q)"
  proof (cases "tree t")
    case None
    have "item_at_tree t [] = None \<and> item_at_tree (add t x) [] = Some x \<and>
        (\<forall>q. q \<noteq> [] \<longrightarrow> item_at_tree (add t x) q = item_at_tree t q)"
      using None by (auto simp: item_at_tree_def add_def neq_Nil_conv)
    then show ?thesis ..
  next
    case (Some nd)
    with add_node_path [of nd "distance_func t" x] show ?thesis
      by (simp add: item_at_tree_def add_def)
  qed
qed


theorem add_grows_by_one_witness:
  "iter (BKTree hamming_distance [0, 4, 5, 14, 15]) = [0, 4, 5, 14, 15] \<and>
   iter (add (BKTree hamming_distance [0, 4, 5, 14, 15]) 7) = [0, 4, 5, 14, 15, 7] \<and>
   item_at_tree (BKTree hamming_distance [0, 4, 5, 14, 15]) [3, 2] = None \<and>
   item_at_tree (add (BKTree hamming_distance [0, 4, 5, 14, 15]) 7) [3, 2] = Some 7 \<and>
   item_at_tree (BKTree hamming_distance [0, 4, 5, 14, 15]) [3] = Some 14 \<and>
   item_at_tree (add (BKTree hamming_distance [0, 4, 5, 14, 15]) 7) [3] = Some 14 \<and>
   length (iter (add (BKTree hamming_distance [0, 4, 5, 14, 15]) 7)) =
     Suc (length (iter (BKTree hamming_distance [0, 4, 5, 14, 15])))"
proof -
  let ?t = "BKTree hamming_distance [0, 4, 5, 14, 15]"
  have 1: "iter ?t = [0, 4, 5, 14, 15]" by code_simp
  have 2: "iter (add ?t 7) = [0, 4, 5, 14, 15, 7]" by code_simp
  have 3: "item_at_tree ?t [3, 2] = None" by code_simp
  have 4: "item_at_tree (add ?t 7) [3, 2] = Some 7" by code_simp
  have 5: "item_at_tree ?t [3] = Some 14" by code_simp
  from add_grows_by_one [of hamming_distance 7 "Node 0 []" ?t]
  obtain p where p: "item_at_tree ?t p = None"
    and others: "\<forall>q. q \<noteq> p \<longrightarrow> item_at_tree (add ?t 7) q = item_at_tree ?t q"
    and len: "length (iter (add ?t 7)) = Suc (length (iter ?t))"
    by blast
  from p 5 have "[3] \<noteq> p" by auto
  with others 5 have 6: "item_at_tree (add ?t 7) [3] = Some 14" by simp
  from 1 2 3 4 5 6 len show ?thesis by simp
qed

section \<open>The methods on the store against the functions\<close>

lemma ref_list_RNode [simp]: "ref_list (RNode x r cs) = r # child_refs cs"
  by (simp add: child_refs_def)

declare ref_list.simps [simp del]

lemma child_refs_simps [simp]:
  "child_refs [] = []"
  "child_refs ((d, c) # cs) = ref_list c @ child_refs cs"
  "child_refs (cs @ cs') = child_refs cs @ child_refs cs'"
  by (simp_all add: child_refs_def)

lemma child_refs_member:
  "(d, c) \<in> set cs \<Longrightarrow> r \<in> set (ref_list c) \<Longrightarrow> r \<in> set (child_refs cs)"
  by (induction cs) auto

lemma holds_frame:
  "holds h rn \<Longrightarrow> \<forall>r \<in> set (ref_list rn). objs h' r = objs h r \<Longrightarrow> holds h' rn"
proof (induction h rn rule: holds.induct)
  case (1 h x r cs)
  from 1(2) have here: "objs h r = Some (Dict (entries cs))"
    and below: "\<And>d c. (d, c) \<in> set cs \<Longrightarrow> holds h c"
    by auto
  have "holds h' c" if "(d, c) \<in> set cs" for d c
  proof (rule 1(1) [OF that refl below [OF that]])
    from 1(3) child_refs_member [OF that]
    show "\<forall>r \<in> set (ref_list c). objs h' r = objs h r" by auto
  qed
  moreover from 1(3) here have "objs h' r = Some (Dict (entries cs))" by simp
  ultimately show ?case by auto
qed

lemma map_of_entries: "map_of (entries cs) d = map_option pn_of (map_of cs d)"
  by (induction cs) (auto simp: entries_def)

lemma map_of_erase:
  "map_of (map (\<lambda>(d, c). (d, erase c)) cs) d = map_option erase (map_of cs d)"
  by (induction cs) auto

lemma entries_update:
  "map_of cs d = Some c \<Longrightarrow> pn_of c' = pn_of c \<Longrightarrow> entries (AList.update d c' cs) = entries cs"
  by (induction cs) (auto simp: entries_def split: if_splits)

lemma erase_update:
  "map (\<lambda>(d, c). (d, erase c)) (AList.update d c' cs) =
   AList.update d (erase c') (map (\<lambda>(d, c). (d, erase c)) cs)"
  by (induction cs) auto

lemma pn_of_add_rnode [simp]: "pn_of (add_rnode f x new rn) = pn_of rn"
  by (cases rn) (simp add: pn_of_def Let_def split: option.splits)

lemma erase_add_rnode: "erase (add_rnode f x new rn) = add_node f x (erase rn)"
proof (induction f x new rn rule: add_rnode.induct)
  case (1 f x new parent r cs)
  show ?case
  proof (cases "map_of cs (f x parent)")
    case None
    then show ?thesis by (simp add: map_of_erase)
  next
    case (Some c)
    with 1 [OF refl Some] show ?thesis by (simp add: map_of_erase erase_update)
  qed
qed

lemma map_of_split:
  "map_of cs d = Some c \<Longrightarrow> \<exists>cs1 cs2. cs = cs1 @ (d, c) # cs2 \<and> map_of cs1 d = None"
proof (induction cs)
  case Nil
  then show ?case by simp
next
  case (Cons e cs)
  obtain k v where e: "e = (k, v)" by (cases e)
  show ?case
  proof (cases "k = d")
    case True
    with Cons.prems e have "e # cs = [] @ (d, c) # cs \<and> map_of [] d = None" by simp
    then show ?thesis by blast
  next
    case False
    with Cons e obtain cs1 cs2 where "cs = cs1 @ (d, c) # cs2" "map_of cs1 d = None"
      by auto
    with False e have "e # cs = (e # cs1) @ (d, c) # cs2 \<and> map_of (e # cs1) d = None"
      by simp
    then show ?thesis by blast
  qed
qed

lemma update_split:
  "map_of cs1 d = None \<Longrightarrow> AList.update d c' (cs1 @ (d, c) # cs2) = cs1 @ (d, c') # cs2"
  by (induction cs1) (auto split: if_splits)

lemma ref_list_add_rnode:
  "distinct (ref_list rn) \<Longrightarrow> new \<notin> set (ref_list rn) \<Longrightarrow>
   distinct (ref_list (add_rnode f x new rn)) \<and>
   set (ref_list (add_rnode f x new rn)) = insert new (set (ref_list rn))"
proof (induction f x new rn rule: add_rnode.induct)
  case (1 f x new parent r cs)
  show ?case
  proof (cases "map_of cs (f x parent)")
    case None
    with 1(2,3) show ?thesis by auto
  next
    case (Some c)
    let ?d = "f x parent" and ?c' = "add_rnode f x new c"
    from map_of_split [OF Some] obtain cs1 cs2
      where cs: "cs = cs1 @ (?d, c) # cs2" and cs1: "map_of cs1 ?d = None"
      by blast
    from 1(2,3) have c: "distinct (ref_list c)" "new \<notin> set (ref_list c)"
      unfolding cs by auto
    from 1(1) [OF refl Some c]
    have c': "distinct (ref_list ?c')" "set (ref_list ?c') = insert new (set (ref_list c))"
      by simp_all
    have new: "add_rnode f x new (RNode parent r cs) = RNode parent r (cs1 @ (?d, ?c') # cs2)"
      using Some update_split [OF cs1, of ?c' c cs2] by (simp add: cs)
    show ?thesis unfolding new using 1(2,3) c' unfolding cs by auto
  qed
qed


lemma entries_append [simp]: "entries (cs @ cs') = entries cs @ entries cs'"
  by (simp add: entries_def)

lemma entries_Nil [simp]: "entries [] = []"
  by (simp add: entries_def)

lemma entries_leaf [simp]: "entries [(d, RNode x r [])] = [(d, PNode x r)]"
  by (simp add: entries_def pn_of_def)

lemma pn_of_RNode [simp]: "pn_of (RNode x r cs) = PNode x r"
  by (simp add: pn_of_def)

lemma ref_list_child:
  "(d, c) \<in> set cs \<Longrightarrow> r' \<in> set (ref_list c) \<Longrightarrow> r' \<in> set (ref_list (RNode x r cs))"
  by (simp add: child_refs_member)

lemma ref_list_child_neq:
  "distinct (ref_list (RNode x r cs)) \<Longrightarrow> (d, c) \<in> set cs \<Longrightarrow> r \<notin> set (ref_list c)"
  using child_refs_member [of d c cs r] by auto

lemma ref_list_sibling:
  assumes "distinct (ref_list (RNode x r (cs1 @ (d, c) # cs2)))"
    and "(d', c') \<in> set cs1 \<union> set cs2" and "r' \<in> set (ref_list c')"
  shows "r' \<notin> set (ref_list c)"
proof -
  from assms(1) have "set (child_refs cs1) \<inter> set (ref_list c) = {}"
    "set (ref_list c) \<inter> set (child_refs cs2) = {}"
    by auto
  moreover from assms(2,3) have "r' \<in> set (child_refs cs1) \<union> set (child_refs cs2)"
    by (auto intro: child_refs_member)
  ultimately show ?thesis by blast
qed

lemma add_loop_h_refines:
  "holds h rn \<Longrightarrow> distinct (ref_list rn) \<Longrightarrow> \<forall>r \<in> set (ref_list rn). r < next_ref h \<Longrightarrow>
   new = next_ref h \<Longrightarrow>
   \<exists>h'. add_loop_h f x (pn_of rn) h = Some h' \<and> holds h' (add_rnode f x new rn) \<and>
        next_ref h' = Suc (next_ref h) \<and>
        (\<forall>r. r \<notin> set (ref_list rn) \<and> r \<noteq> new \<longrightarrow> objs h' r = objs h r) \<and>
        (\<exists>r \<in> set (ref_list rn). objs h' r \<noteq> objs h r)"
proof (induction f x new rn rule: add_rnode.induct)
  case (1 f x new parent r cs)
  let ?d = "f x parent"
  from 1(2) have here: "objs h r = Some (Dict (entries cs))"
    and below: "\<And>d c. (d, c) \<in> set cs \<Longrightarrow> holds h c"
    by auto
  from 1(4) have r_lt: "r < next_ref h" by simp
  with 1(5) have r_new: "r \<noteq> new" by simp
  show ?case
  proof (cases "map_of cs ?d")
    case None
    let ?h' = "store r (Dict (entries cs @ [(?d, PNode x new)])) (snd (alloc (Dict []) h))"
    have run: "add_loop_h f x (pn_of (RNode parent r cs)) h = Some ?h'"
      using None here 1(5)
      by (subst add_loop_h.simps) (simp add: map_of_entries alloc_def Let_def)
    have objs': "objs ?h' = (objs h)(new \<mapsto> Dict [], r \<mapsto> Dict (entries cs @ [(?d, PNode x new)]))"
      using 1(5) by (simp add: store_def alloc_def)
    have "holds ?h' c" if "(d, c) \<in> set cs" for d c
    proof (rule holds_frame [OF below [OF that]])
      show "\<forall>r' \<in> set (ref_list c). objs ?h' r' = objs h r'"
      proof
        fix r' assume r': "r' \<in> set (ref_list c)"
        from ref_list_child [OF that r'] 1(4,5) have "r' \<noteq> new" by blast
        moreover from ref_list_child_neq [OF 1(3) that] r' have "r' \<noteq> r" by blast
        ultimately show "objs ?h' r' = objs h r'" unfolding objs' by simp
      qed
    qed
    then have "holds ?h' (add_rnode f x new (RNode parent r cs))"
      using None r_new by (auto simp: objs')
    moreover have "next_ref ?h' = Suc (next_ref h)"
      by (simp add: store_def alloc_def)
    moreover have "\<forall>r'. r' \<notin> set (ref_list (RNode parent r cs)) \<and> r' \<noteq> new \<longrightarrow>
        objs ?h' r' = objs h r'"
      unfolding objs' by simp
    moreover have "objs ?h' r \<noteq> objs h r"
      unfolding objs' using here by simp
    ultimately show ?thesis using run by auto
  next
    case (Some c)
    let ?c' = "add_rnode f x new c"
    from map_of_split [OF Some] obtain cs1 cs2
      where cs: "cs = cs1 @ (?d, c) # cs2" and cs1: "map_of cs1 ?d = None"
      by blast
    have new_node: "add_rnode f x new (RNode parent r cs) = RNode parent r (cs1 @ (?d, ?c') # cs2)"
      using Some update_split [OF cs1, of ?c' c cs2] by (simp add: cs)
    from 1(3,4) have c: "holds h c" "distinct (ref_list c)" "\<forall>r \<in> set (ref_list c). r < next_ref h"
      using below [of ?d c] unfolding cs by auto
    from 1(1) [OF refl Some c 1(5)] obtain h' where
      run_c: "add_loop_h f x (pn_of c) h = Some h'" and
      holds_c: "holds h' ?c'" and
      next': "next_ref h' = Suc (next_ref h)" and
      frame_c: "\<And>r'. r' \<notin> set (ref_list c) \<Longrightarrow> r' \<noteq> new \<Longrightarrow> objs h' r' = objs h r'" and
      changed: "\<exists>r \<in> set (ref_list c). objs h' r \<noteq> objs h r"
      by blast
    have run: "add_loop_h f x (pn_of (RNode parent r cs)) h = Some h'"
      using Some here run_c
      by (subst add_loop_h.simps) (simp add: map_of_entries)
    from 1(3) have r_c: "r \<notin> set (ref_list c)" unfolding cs by auto
    have "objs h' r = Some (Dict (entries (cs1 @ (?d, ?c') # cs2)))"
      using frame_c [OF r_c r_new] here unfolding cs by (simp add: entries_def)
    moreover have "holds h' c''" if "(d, c'') \<in> set (cs1 @ (?d, ?c') # cs2)" for d c''
    proof (cases "c'' = ?c'")
      case True
      with holds_c show ?thesis by simp
    next
      case False
      with that have old: "(d, c'') \<in> set cs1 \<union> set cs2" by auto
      then have in_cs: "(d, c'') \<in> set cs" unfolding cs by auto
      show ?thesis
      proof (rule holds_frame [OF below [OF in_cs]])
        show "\<forall>r' \<in> set (ref_list c''). objs h' r' = objs h r'"
        proof
          fix r' assume r': "r' \<in> set (ref_list c'')"
          from ref_list_sibling [OF 1(3) [unfolded cs] old r']
          have "r' \<notin> set (ref_list c)" .
          moreover from ref_list_child [OF in_cs r'] 1(4,5) have "r' \<noteq> new" by blast
          ultimately show "objs h' r' = objs h r'" by (rule frame_c)
        qed
      qed
    qed
    ultimately have "holds h' (add_rnode f x new (RNode parent r cs))"
      unfolding new_node by auto
    moreover have "\<forall>r'. r' \<notin> set (ref_list (RNode parent r cs)) \<and> r' \<noteq> new \<longrightarrow>
        objs h' r' = objs h r'"
      using frame_c unfolding cs by auto
    moreover from changed have "\<exists>r \<in> set (ref_list (RNode parent r cs)). objs h' r \<noteq> objs h r"
      unfolding cs by auto
    ultimately show ?thesis using run next' by blast
  qed
qed

lemma child_refs_cases:
  "r \<in> set (child_refs cs) \<Longrightarrow> \<exists>d c. (d, c) \<in> set cs \<and> r \<in> set (ref_list c)"
  by (induction cs) (simp, fastforce)

lemma holds_allocated:
  "holds h rn \<Longrightarrow> r \<in> set (ref_list rn) \<Longrightarrow> \<exists>al. objs h r = Some (Dict al)"
proof (induction h rn rule: holds.induct)
  case (1 h x r0 cs)
  show ?case
  proof (cases "r = r0")
    case True
    with 1(2) show ?thesis by simp
  next
    case False
    with 1(3) have "r \<in> set (child_refs cs)" by simp
    from child_refs_cases [OF this] obtain d c where c: "(d, c) \<in> set cs" "r \<in> set (ref_list c)"
      by blast
    with 1(2) have "holds h c" by auto
    from 1(1) [OF c(1) refl this c(2)] show ?thesis .
  qed
qed

lemma add_h_refines:
  assumes "tree_at h self f rt" and "heap_ok h"
  shows "\<exists>h' rt'. add_h self x h = Some h' \<and> tree_at h' self f rt' \<and> heap_ok h' \<and>
           erase_tree f rt' = add (erase_tree f rt) x \<and>
           next_ref h \<le> next_ref h' \<and>
           (\<forall>r < self. objs h' r = objs h r) \<and>
           (\<exists>r ob. objs h r = Some ob \<and> objs h' r \<noteq> Some ob)"
proof (cases rt)
  case None
  let ?new = "next_ref h"
  let ?h' = "store self (Inst f (Some (PNode x ?new))) (snd (alloc (Dict []) h))"
  from assms(1) None have self: "objs h self = Some (Inst f None)" "self < ?new"
    by (simp_all add: tree_at_def)
  have run: "add_h self x h = Some ?h'"
    using self by (simp add: add_h_def alloc_def)
  have objs': "objs ?h' = (objs h)(?new \<mapsto> Dict [], self \<mapsto> Inst f (Some (PNode x ?new)))"
    and next': "next_ref ?h' = Suc ?new"
    by (simp_all add: store_def alloc_def)
  have "tree_at ?h' self f (Some (RNode x ?new []))"
    using self by (simp add: tree_at_def tree_refs_def objs' next')
  moreover have "heap_ok ?h'"
    using assms(2) self by (simp add: heap_ok_def objs' next')
  moreover have "erase_tree f (Some (RNode x ?new [])) = add (erase_tree f rt) x"
    using None by (simp add: erase_tree_def add_def)
  moreover have "\<forall>r < self. objs ?h' r = objs h r"
    using self by (simp add: objs')
  moreover have "\<exists>r ob. objs h r = Some ob \<and> objs ?h' r \<noteq> Some ob"
    using self by (intro exI [of _ self] exI [of _ "Inst f None"]) (simp add: objs')
  ultimately have "add_h self x h = Some ?h' \<and> tree_at ?h' self f (Some (RNode x ?new [])) \<and>
      heap_ok ?h' \<and> erase_tree f (Some (RNode x ?new [])) = add (erase_tree f rt) x \<and>
      next_ref h \<le> next_ref ?h' \<and> (\<forall>r < self. objs ?h' r = objs h r) \<and>
      (\<exists>r ob. objs h r = Some ob \<and> objs ?h' r \<noteq> Some ob)"
    using run next' self(2) by simp
  then show ?thesis by blast
next
  case (Some rn)
  let ?new = "next_ref h"
  from assms(1) Some have self: "objs h self = Some (Inst f (Some (pn_of rn)))" "self < ?new"
    and rn: "holds h rn" "distinct (ref_list rn)"
    and bound: "\<forall>r \<in> set (ref_list rn). self < r \<and> r < ?new"
    by (simp_all add: tree_at_def tree_refs_def)
  from bound have bound': "\<forall>r \<in> set (ref_list rn). r < ?new" by simp
  from add_loop_h_refines [OF rn bound' refl, of f x] obtain h' where
    run_loop: "add_loop_h f x (pn_of rn) h = Some h'" and
    holds': "holds h' (add_rnode f x ?new rn)" and
    next': "next_ref h' = Suc ?new" and
    frame: "\<And>r. r \<notin> set (ref_list rn) \<Longrightarrow> r \<noteq> ?new \<Longrightarrow> objs h' r = objs h r" and
    changed: "\<exists>r \<in> set (ref_list rn). objs h' r \<noteq> objs h r"
    by blast
  let ?rn' = "add_rnode f x ?new rn"
  from bound have new_fresh: "?new \<notin> set (ref_list rn)" by auto
  from ref_list_add_rnode [OF rn(2) new_fresh, of f x]
  have refs': "distinct (ref_list ?rn')" "set (ref_list ?rn') = insert ?new (set (ref_list rn))"
    by simp_all
  have run: "add_h self x h = Some h'"
    using self run_loop by (simp add: add_h_def)
  from bound self(2) have "self \<notin> set (ref_list rn)" "self \<noteq> ?new" by auto
  from frame [OF this] self have self': "objs h' self = Some (Inst f (Some (pn_of ?rn')))"
    by simp
  have "tree_at h' self f (Some ?rn')"
    using self' holds' refs' bound self(2) next'
    by (auto simp: tree_at_def tree_refs_def)
  moreover have "heap_ok h'"
    unfolding heap_ok_def
  proof (intro allI impI)
    fix r assume "next_ref h' \<le> r"
    with next' bound have "r \<notin> set (ref_list rn)" "r \<noteq> ?new" "?new \<le> r" by auto
    with frame [of r] assms(2) show "objs h' r = None" by (simp add: heap_ok_def)
  qed
  moreover have "erase_tree f (Some ?rn') = add (erase_tree f rt) x"
    using Some by (simp add: erase_tree_def add_def erase_add_rnode)
  moreover have "\<forall>r < self. objs h' r = objs h r"
  proof (intro allI impI)
    fix r assume "r < self"
    with bound self(2) have "r \<notin> set (ref_list rn)" "r \<noteq> ?new" by auto
    then show "objs h' r = objs h r" by (rule frame)
  qed
  moreover have "\<exists>r ob. objs h r = Some ob \<and> objs h' r \<noteq> Some ob"
  proof -
    from changed obtain r where r: "r \<in> set (ref_list rn)" "objs h' r \<noteq> objs h r" by blast
    from holds_allocated [OF rn(1) r(1)] obtain al where "objs h r = Some (Dict al)" ..
    with r(2) show ?thesis by auto
  qed
  ultimately have "add_h self x h = Some h' \<and> tree_at h' self f (Some ?rn') \<and> heap_ok h' \<and>
      erase_tree f (Some ?rn') = add (erase_tree f rt) x \<and> next_ref h \<le> next_ref h' \<and>
      (\<forall>r < self. objs h' r = objs h r) \<and>
      (\<exists>r ob. objs h r = Some ob \<and> objs h' r \<noteq> Some ob)"
    using run next' by simp
  then show ?thesis by blast
qed

lemma init_loop_h_refines:
  "tree_at h self f rt \<Longrightarrow> heap_ok h \<Longrightarrow>
   \<exists>h' rt'. init_loop_h self xs h = Some h' \<and> tree_at h' self f rt' \<and> heap_ok h' \<and>
      erase_tree f rt' = init_loop (erase_tree f rt) xs \<and>
      next_ref h \<le> next_ref h' \<and> (\<forall>r < self. objs h' r = objs h r)"
proof (induction xs arbitrary: h rt)
  case Nil
  then show ?case by auto
next
  case (Cons x xs)
  from add_h_refines [OF Cons.prems, of x] obtain h1 rt1 where
    1: "add_h self x h = Some h1" "tree_at h1 self f rt1" "heap_ok h1"
      "erase_tree f rt1 = add (erase_tree f rt) x" "next_ref h \<le> next_ref h1"
      "\<forall>r < self. objs h1 r = objs h r"
    by blast
  from Cons.IH [OF 1(2,3)] obtain h' rt' where
    2: "init_loop_h self xs h1 = Some h'" "tree_at h' self f rt'" "heap_ok h'"
      "erase_tree f rt' = init_loop (erase_tree f rt1) xs" "next_ref h1 \<le> next_ref h'"
      "\<forall>r < self. objs h' r = objs h1 r"
    by blast
  from 1 2 have "init_loop_h self (x # xs) h = Some h'"
    "erase_tree f rt' = init_loop (erase_tree f rt) (x # xs)"
    "next_ref h \<le> next_ref h'" "\<forall>r < self. objs h' r = objs h r"
    by simp_all
  with 2(2,3) show ?case by blast
qed

lemma BKTree_h_refines:
  assumes "heap_ok h0"
  shows "\<exists>h rt. BKTree_h f xs h0 = Some (next_ref h0, h) \<and> tree_at h (next_ref h0) f rt \<and>
           heap_ok h \<and> erase_tree f rt = BKTree f xs \<and>
           next_ref h0 < next_ref h \<and> (\<forall>r < next_ref h0. objs h r = objs h0 r)"
proof -
  let ?self = "next_ref h0"
  let ?h1 = "snd (alloc (Inst f None) h0)"
  have objs1: "objs ?h1 = (objs h0)(?self \<mapsto> Inst f None)" and next1: "next_ref ?h1 = Suc ?self"
    by (simp_all add: alloc_def)
  have "tree_at ?h1 ?self f None"
    by (simp add: tree_at_def tree_refs_def objs1 next1)
  moreover have "heap_ok ?h1"
    using assms by (simp add: heap_ok_def objs1 next1)
  ultimately obtain h rt where
    1: "init_loop_h ?self xs ?h1 = Some h" "tree_at h ?self f rt" "heap_ok h"
      "erase_tree f rt = init_loop (erase_tree f None) xs" "next_ref ?h1 \<le> next_ref h"
      "\<forall>r < ?self. objs h r = objs ?h1 r"
    using init_loop_h_refines [of ?h1 ?self f None xs] by blast
  have "BKTree_h f xs h0 = Some (?self, h)"
    using 1(1) by (simp add: BKTree_h_def alloc_def)
  moreover have "erase_tree f rt = BKTree f xs"
    using 1(4) by (simp add: BKTree_def erase_tree_def)
  moreover have "\<forall>r < ?self. objs h r = objs h0 r"
    using 1(6) by (simp add: objs1)
  moreover from 1(5) have "?self < next_ref h" by (simp add: next1)
  ultimately show ?thesis using 1(2,3) by blast
qed

lemma tree_at_frame:
  assumes "tree_at h self f rt" and "next_ref h \<le> next_ref h'"
    and "\<forall>r. self \<le> r \<and> r < next_ref h \<longrightarrow> objs h' r = objs h r"
  shows "tree_at h' self f rt"
proof -
  from assms(1) have self: "self < next_ref h" by (simp add: tree_at_def)
  with assms(3) have "objs h' self = objs h self" by simp
  moreover have "holds h' rn" if "rt = Some rn" for rn
  proof (rule holds_frame)
    from assms(1) that show "holds h rn" by (simp add: tree_at_def)
    from assms(1,3) that show "\<forall>r \<in> set (ref_list rn). objs h' r = objs h r"
      by (auto simp: tree_at_def tree_refs_def)
  qed
  ultimately show ?thesis
    using assms(1,2) by (auto simp: tree_at_def tree_refs_def split: option.splits)
qed

lemma selected_h_entries:
  "selected_h lo hi (entries rcs) =
   map pn_of (map snd (filter (\<lambda>(d, c). lo \<le> d \<and> d \<le> hi) rcs))"
  by (induction rcs) (auto simp: selected_h_def entries_def)

lemma selected_erase:
  "selected lo hi (map (\<lambda>(d, c). (d, erase c)) rcs) =
   map erase (map snd (filter (\<lambda>(d, c). lo \<le> d \<and> d \<le> hi) rcs))"
  by (induction rcs) (auto simp: selected_def)

lemma map_snd_entries: "map snd (entries rcs) = map pn_of (map snd rcs)"
  by (induction rcs) (auto simp: entries_def)

lemma map_snd_erase: "map snd (map (\<lambda>(d, c). (d, erase c)) rcs) = map erase (map snd rcs)"
  by (induction rcs) auto

lemma entries_Nil_iff [simp]: "entries rcs = [] \<longleftrightarrow> rcs = []"
  by (simp add: entries_def)

lemma holds_child: "holds h (RNode x r rcs) \<Longrightarrow> c \<in> snd ` set rcs \<Longrightarrow> holds h c"
  by auto

lemma ref_list_child_subset:
  "c \<in> snd ` set rcs \<Longrightarrow> set (ref_list c) \<subseteq> set (ref_list (RNode x r rcs))"
  by (auto intro: child_refs_member)

lemma find_loop_h_refines:
  "objs h dq = Some (Deque (map pn_of rns)) \<Longrightarrow> objs h fl = Some (PyList found) \<Longrightarrow>
   dq \<noteq> fl \<Longrightarrow>
   \<forall>rn \<in> set rns. holds h rn \<and> dq \<notin> set (ref_list rn) \<and> fl \<notin> set (ref_list rn) \<Longrightarrow>
   cands = map erase rns \<Longrightarrow>
   \<exists>h'. find_loop_h f x n dq fl h = Some h' \<and>
        objs h' fl = Some (PyList (find_loop f x n cands found)) \<and>
        (\<forall>r. r \<noteq> dq \<and> r \<noteq> fl \<longrightarrow> objs h' r = objs h r) \<and> next_ref h' = next_ref h"
proof (induction f x n cands found arbitrary: rns h rule: find_loop.induct)
  case (1 f x n found)
  then show ?case by (subst find_loop_h.simps) simp
next
  case (2 f x n candidate cs candidates found)
  from 2(6) obtain rn rns' where rns: "rns = rn # rns'"
    and rn_erase: "erase rn = Node candidate cs" and rest: "candidates = map erase rns'"
    by (cases rns) auto
  then obtain r rcs where rn: "rn = RNode candidate r rcs"
    and cs: "cs = map (\<lambda>(d, c). (d, erase c)) rcs"
    by (cases rn) auto
  let ?d = "f candidate x"
  let ?found = "if ?d \<le> n then found @ [(?d, candidate)] else found"
  let ?sel = "map snd (filter (\<lambda>(d, c). ?d - n \<le> d \<and> d \<le> ?d + n) rcs)"
  let ?rns = "rns' @ ?sel"
  let ?cands = "if cs \<noteq> [] then candidates @ selected (?d - n) (?d + n) cs else candidates"
  define h1 where "h1 = store dq (Deque (map pn_of rns')) h"
  define h2 where "h2 = (if ?d \<le> n then store fl (PyList (found @ [(?d, candidate)])) h1 else h1)"
  define h3 where "h3 = (if rcs \<noteq> [] then store dq (Deque (map pn_of ?rns)) h2 else h2)"
  from 2(5) rns rn have rn_holds: "holds h (RNode candidate r rcs)"
    and r_dq: "r \<noteq> dq" and r_fl: "r \<noteq> fl"
    by auto
  then have dict: "objs h r = Some (Dict (entries rcs))" by simp
  have h1: "objs h1 fl = Some (PyList found)" "objs h1 r = Some (Dict (entries rcs))"
    "objs h1 dq = Some (Deque (map pn_of rns'))"
    using 2(3,4) dict r_dq by (simp_all add: store_def h1_def)
  have h2: "objs h2 dq = Some (Deque (map pn_of rns'))" "objs h2 r = Some (Dict (entries rcs))"
    "objs h2 fl = Some (PyList ?found)"
    using 2(4) h1 r_dq r_fl by (simp_all add: store_def h2_def)
  have app: "(if ?d \<le> n then list_append fl (?d, candidate) h1 else Some h1) = Some h2"
    using h1(1) by (simp add: list_append_def h2_def)
  have ext: "(if entries rcs \<noteq> []
        then deque_extend dq (selected_h (?d - n) (?d + n) (entries rcs)) h2 else Some h2) = Some h3"
    using h2(1) by (simp add: deque_extend_def selected_h_entries h3_def)
  have "find_loop_h f x n dq fl h =
      Option.bind (if ?d \<le> n then list_append fl (?d, candidate) h1 else Some h1) (\<lambda>h2.
        Option.bind (case objs h2 r of
            Some (Dict al) \<Rightarrow>
              (if al \<noteq> [] then deque_extend dq (selected_h (?d - n) (?d + n) al) h2
               else Some h2)
          | _ \<Rightarrow> None) (find_loop_h f x n dq fl))"
    using 2(2) unfolding rns rn h1_def
    by (subst find_loop_h.simps) (simp add: Let_def)
  also have "\<dots> = Option.bind (if entries rcs \<noteq> []
        then deque_extend dq (selected_h (?d - n) (?d + n) (entries rcs)) h2 else Some h2)
      (find_loop_h f x n dq fl)"
    unfolding app by (simp add: h2(2))
  also have "\<dots> = find_loop_h f x n dq fl h3"
    unfolding ext by simp
  finally have step: "find_loop_h f x n dq fl h = find_loop_h f x n dq fl h3" .
  have h3_dq: "objs h3 dq = Some (Deque (map pn_of ?rns))"
    using h2(1) by (simp add: store_def h3_def)
  have h3_fl: "objs h3 fl = Some (PyList ?found)"
    using 2(4) h2(3) by (simp add: store_def h3_def)
  have h3_frame: "objs h3 r' = objs h r'" if "r' \<noteq> dq" "r' \<noteq> fl" for r'
    using that by (simp add: store_def h3_def h2_def h1_def)
  have h3_next: "next_ref h3 = next_ref h"
    by (simp add: store_def h3_def h2_def h1_def)
  have cands_eq: "?cands = map erase ?rns"
    by (simp add: rest cs selected_erase)
  have inv: "\<forall>rn \<in> set ?rns. holds h3 rn \<and> dq \<notin> set (ref_list rn) \<and> fl \<notin> set (ref_list rn)"
  proof
    fix c assume c: "c \<in> set ?rns"
    have old: "holds h c \<and> dq \<notin> set (ref_list c) \<and> fl \<notin> set (ref_list c)"
    proof (cases "c \<in> set rns'")
      case True
      with 2(5) rns show ?thesis by simp
    next
      case False
      with c have child: "c \<in> snd ` set rcs" by auto
      from 2(5) rns rn have "dq \<notin> set (ref_list (RNode candidate r rcs))"
        "fl \<notin> set (ref_list (RNode candidate r rcs))" by auto
      with ref_list_child_subset [OF child, of candidate r] holds_child [OF rn_holds child]
      show ?thesis by blast
    qed
    have "holds h3 c"
    proof (rule holds_frame)
      from old show "holds h c" ..
      show "\<forall>r' \<in> set (ref_list c). objs h3 r' = objs h r'"
      proof
        fix r' assume "r' \<in> set (ref_list c)"
        with old have "r' \<noteq> dq" "r' \<noteq> fl" by auto
        then show "objs h3 r' = objs h r'" by (rule h3_frame)
      qed
    qed
    with old show "holds h3 c \<and> dq \<notin> set (ref_list c) \<and> fl \<notin> set (ref_list c)" by simp
  qed
  from 2(1) [OF refl refl refl h3_dq h3_fl 2(4) inv cands_eq]
  obtain h' where
    run: "find_loop_h f x n dq fl h3 = Some h'" and
    res: "objs h' fl = Some (PyList (find_loop f x n ?cands ?found))" and
    frame: "\<And>r. r \<noteq> dq \<Longrightarrow> r \<noteq> fl \<Longrightarrow> objs h' r = objs h3 r" and
    nxt: "next_ref h' = next_ref h3"
    by auto
  have fl_step: "find_loop f x n (Node candidate cs # candidates) found =
      find_loop f x n ?cands ?found"
    by (simp only: find_loop.simps Let_def)
  have "find_loop_h f x n dq fl h = Some h'" using step run by simp
  moreover have "objs h' fl = Some (PyList (find_loop f x n (Node candidate cs # candidates) found))"
    unfolding fl_step by (rule res)
  moreover have "\<forall>r. r \<noteq> dq \<and> r \<noteq> fl \<longrightarrow> objs h' r = objs h r"
    using frame h3_frame by simp
  moreover have "next_ref h' = next_ref h" using nxt h3_next by simp
  ultimately show ?case by blast
qed

lemma iter_loop_h_refines:
  "objs h dq = Some (Deque (map pn_of rns)) \<Longrightarrow>
   \<forall>rn \<in> set rns. holds h rn \<and> dq \<notin> set (ref_list rn) \<Longrightarrow>
   cands = map erase rns \<Longrightarrow>
   \<exists>h'. iter_loop_h dq h = Some (iter_loop cands, h') \<and>
        (\<forall>r. r \<noteq> dq \<longrightarrow> objs h' r = objs h r) \<and> next_ref h' = next_ref h"
proof (induction cands arbitrary: rns h rule: iter_loop.induct)
  case 1
  then show ?case by (subst iter_loop_h.simps) simp
next
  case (2 candidate cs candidates)
  from 2(4) obtain rn rns' where rns: "rns = rn # rns'"
    and rn_erase: "erase rn = Node candidate cs" and rest: "candidates = map erase rns'"
    by (cases rns) auto
  then obtain r rcs where rn: "rn = RNode candidate r rcs"
    and cs: "cs = map (\<lambda>(d, c). (d, erase c)) rcs"
    by (cases rn) auto
  let ?rns = "rns' @ map snd rcs"
  define h1 where "h1 = store dq (Deque (map pn_of rns')) h"
  define h2 where "h2 = store dq (Deque (map pn_of ?rns)) h1"
  from 2(3) rns rn have rn_holds: "holds h (RNode candidate r rcs)" and r_dq: "r \<noteq> dq"
    by auto
  then have dict: "objs h r = Some (Dict (entries rcs))" by simp
  have h1: "objs h1 r = Some (Dict (entries rcs))" "objs h1 dq = Some (Deque (map pn_of rns'))"
    using dict r_dq by (simp_all add: store_def h1_def)
  have ext: "deque_extend dq (map snd (entries rcs)) h1 = Some h2"
    using h1(2) by (simp add: deque_extend_def map_snd_entries h2_def)
  have "iter_loop_h dq h =
      Option.bind (case objs h1 r of
          Some (Dict al) \<Rightarrow> deque_extend dq (map snd al) h1 | _ \<Rightarrow> None) (\<lambda>h2.
        Option.bind (iter_loop_h dq h2) (\<lambda>(ys, h3). Some (candidate # ys, h3)))"
    using 2(2) unfolding rns rn h1_def
    by (subst iter_loop_h.simps) (simp add: Let_def)
  also have "\<dots> = Option.bind (iter_loop_h dq h2) (\<lambda>(ys, h3). Some (candidate # ys, h3))"
    by (simp add: h1(1) ext)
  finally have step: "iter_loop_h dq h =
      Option.bind (iter_loop_h dq h2) (\<lambda>(ys, h3). Some (candidate # ys, h3))" .
  have h2_dq: "objs h2 dq = Some (Deque (map pn_of ?rns))"
    by (simp add: store_def h2_def)
  have h2_frame: "objs h2 r' = objs h r'" if "r' \<noteq> dq" for r'
    using that by (simp add: store_def h2_def h1_def)
  have h2_next: "next_ref h2 = next_ref h"
    by (simp add: store_def h2_def h1_def)
  have "map snd cs = map erase (map snd rcs)"
    unfolding cs by (induction rcs) auto
  then have cands_eq: "candidates @ map snd cs = map erase ?rns"
    by (simp add: rest)
  have inv: "\<forall>rn \<in> set ?rns. holds h2 rn \<and> dq \<notin> set (ref_list rn)"
  proof
    fix c assume c: "c \<in> set ?rns"
    have old: "holds h c \<and> dq \<notin> set (ref_list c)"
    proof (cases "c \<in> set rns'")
      case True
      with 2(3) rns show ?thesis by simp
    next
      case False
      with c have child: "c \<in> snd ` set rcs" by auto
      from 2(3) rns rn have "dq \<notin> set (ref_list (RNode candidate r rcs))" by auto
      with ref_list_child_subset [OF child, of candidate r] holds_child [OF rn_holds child]
      show ?thesis by blast
    qed
    have "holds h2 c"
    proof (rule holds_frame)
      from old show "holds h c" ..
      show "\<forall>r' \<in> set (ref_list c). objs h2 r' = objs h r'"
      proof
        fix r' assume "r' \<in> set (ref_list c)"
        with old have "r' \<noteq> dq" by auto
        then show "objs h2 r' = objs h r'" by (rule h2_frame)
      qed
    qed
    with old show "holds h2 c \<and> dq \<notin> set (ref_list c)" by simp
  qed
  from 2(1) [OF h2_dq inv cands_eq]
  obtain h' where
    run: "iter_loop_h dq h2 = Some (iter_loop (candidates @ map snd cs), h')" and
    frame: "\<And>r. r \<noteq> dq \<Longrightarrow> objs h' r = objs h2 r" and
    nxt: "next_ref h' = next_ref h2"
    by auto
  have "iter_loop_h dq h = Some (iter_loop (Node candidate cs # candidates), h')"
    using step run by simp
  moreover have "\<forall>r. r \<noteq> dq \<longrightarrow> objs h' r = objs h r"
    using frame h2_frame by simp
  moreover have "next_ref h' = next_ref h" using nxt h2_next by simp
  ultimately show ?case by blast
qed

lemma find_h_refines:
  assumes "tree_at h self f rt" and "heap_ok h"
  shows "\<exists>res h'. find_h self x n h = Some (res, h') \<and>
           objs h' res = Some (PyList (find_bk (erase_tree f rt) x n)) \<and>
           (\<forall>r < next_ref h. objs h' r = objs h r) \<and>
           heap_ok h' \<and> next_ref h \<le> res \<and> res < next_ref h'"
proof (cases rt)
  case None
  let ?h' = "snd (alloc (PyList []) h)"
  from assms(1) None have self: "objs h self = Some (Inst f None)"
    by (simp add: tree_at_def)
  then have "find_h self x n h = Some (next_ref h, ?h')"
    by (simp add: find_h_def alloc_def)
  moreover have "objs ?h' (next_ref h) = Some (PyList (find_bk (erase_tree f rt) x n))"
    using None by (simp add: alloc_def find_bk_def erase_tree_def)
  moreover have "\<forall>r < next_ref h. objs ?h' r = objs h r"
    by (simp add: alloc_def)
  moreover have "heap_ok ?h'"
    using assms(2) by (simp add: heap_ok_def alloc_def)
  moreover have "next_ref h < next_ref ?h'"
    by (simp add: alloc_def)
  ultimately show ?thesis by blast
next
  case (Some rn)
  let ?dq = "next_ref h" and ?fl = "Suc (next_ref h)"
  define h2 where "h2 = snd (alloc (PyList []) (snd (alloc (Deque [pn_of rn]) h)))"
  from assms(1) Some have self: "objs h self = Some (Inst f (Some (pn_of rn)))"
    and rn: "holds h rn" and bound: "\<forall>r \<in> set (ref_list rn). r < next_ref h"
    by (simp_all add: tree_at_def tree_refs_def)
  have objs2: "objs h2 = (objs h)(?dq \<mapsto> Deque [pn_of rn], ?fl \<mapsto> PyList [])"
    and next2: "next_ref h2 = Suc (Suc (next_ref h))"
    by (simp_all add: h2_def alloc_def)
  have inv: "\<forall>c \<in> set [rn]. holds h2 c \<and> ?dq \<notin> set (ref_list c) \<and> ?fl \<notin> set (ref_list c)"
  proof -
    from bound have fresh: "?dq \<notin> set (ref_list rn)" "?fl \<notin> set (ref_list rn)" by auto
    then have "\<forall>r \<in> set (ref_list rn). objs h2 r = objs h r"
      unfolding objs2 by auto
    with rn have "holds h2 rn" by (rule holds_frame)
    with fresh show ?thesis by simp
  qed
  have dq2: "objs h2 ?dq = Some (Deque (map pn_of [rn]))"
    and fl2: "objs h2 ?fl = Some (PyList [])"
    by (simp_all add: objs2)
  from find_loop_h_refines [OF dq2 fl2 _ inv refl, of f x n]
  obtain h3 where
    run: "find_loop_h f x n ?dq ?fl h2 = Some h3" and
    res: "objs h3 ?fl = Some (PyList (find_loop f x n [erase rn] []))" and
    frame: "\<And>r. r \<noteq> ?dq \<Longrightarrow> r \<noteq> ?fl \<Longrightarrow> objs h3 r = objs h2 r" and
    next3: "next_ref h3 = next_ref h2"
    by auto
  let ?h4 = "store ?fl (PyList (sort_key fst (find_loop f x n [erase rn] []))) h3"
  have sort: "list_sort ?fl h3 = Some ?h4"
    using res by (simp add: list_sort_def)
  have "find_h self x n h = Some (?fl, ?h4)"
    using self run sort by (simp add: find_h_def alloc_def h2_def)
  moreover have "objs ?h4 ?fl = Some (PyList (find_bk (erase_tree f rt) x n))"
    using Some by (simp add: store_def find_bk_def erase_tree_def)
  moreover have "\<forall>r < next_ref h. objs ?h4 r = objs h r"
    using frame by (simp add: store_def objs2)
  moreover have "heap_ok ?h4"
    unfolding heap_ok_def
  proof (intro allI impI)
    fix r assume "next_ref ?h4 \<le> r"
    then have r: "Suc (Suc (next_ref h)) \<le> r" by (simp add: store_def next3 next2)
    then have "objs ?h4 r = objs h r" using frame [of r] by (simp add: store_def objs2)
    with r assms(2) show "objs ?h4 r = None" by (simp add: heap_ok_def)
  qed
  moreover have "?fl < next_ref ?h4"
    by (simp add: store_def next3 next2)
  ultimately show ?thesis by (intro exI conjI) auto
qed

lemma iter_h_refines:
  assumes "tree_at h self f rt" and "heap_ok h"
  shows "\<exists>h'. iter_h self h = Some (iter (erase_tree f rt), h') \<and>
           (\<forall>r < next_ref h. objs h' r = objs h r) \<and>
           heap_ok h' \<and> next_ref h \<le> next_ref h'"
proof (cases rt)
  case None
  with assms(1) have "objs h self = Some (Inst f None)"
    by (simp add: tree_at_def)
  with None assms(2) show ?thesis by (simp add: iter_h_def iter_def erase_tree_def)
next
  case (Some rn)
  let ?dq = "next_ref h"
  define h1 where "h1 = snd (alloc (Deque [pn_of rn]) h)"
  from assms(1) Some have self: "objs h self = Some (Inst f (Some (pn_of rn)))"
    and rn: "holds h rn" and bound: "\<forall>r \<in> set (ref_list rn). r < next_ref h"
    by (simp_all add: tree_at_def tree_refs_def)
  have objs1: "objs h1 = (objs h)(?dq \<mapsto> Deque [pn_of rn])"
    by (simp add: h1_def alloc_def)
  have inv: "\<forall>c \<in> set [rn]. holds h1 c \<and> ?dq \<notin> set (ref_list c)"
  proof -
    from bound have fresh: "?dq \<notin> set (ref_list rn)" by auto
    then have "\<forall>r \<in> set (ref_list rn). objs h1 r = objs h r"
      unfolding objs1 by auto
    with rn have "holds h1 rn" by (rule holds_frame)
    with fresh show ?thesis by simp
  qed
  have dq1: "objs h1 ?dq = Some (Deque (map pn_of [rn]))"
    by (simp add: objs1)
  from iter_loop_h_refines [OF dq1 inv refl]
  obtain h' where
    run: "iter_loop_h ?dq h1 = Some (iter_loop [erase rn], h')" and
    frame: "\<And>r. r \<noteq> ?dq \<Longrightarrow> objs h' r = objs h1 r" and
    next': "next_ref h' = next_ref h1"
    by auto
  have next1: "next_ref h1 = Suc (next_ref h)"
    by (simp add: h1_def alloc_def)
  have "iter_h self h = Some (iter (erase_tree f rt), h')"
    using self run Some by (simp add: iter_h_def alloc_def h1_def iter_def erase_tree_def)
  moreover have "\<forall>r < next_ref h. objs h' r = objs h r"
    using frame by (simp add: objs1)
  moreover have "heap_ok h'"
    unfolding heap_ok_def
  proof (intro allI impI)
    fix r assume "next_ref h' \<le> r"
    then have r: "Suc (next_ref h) \<le> r" by (simp add: next' next1)
    then have "objs h' r = objs h r" using frame [of r] by (simp add: objs1)
    with r assms(2) show "objs h' r = None" by (simp add: heap_ok_def)
  qed
  moreover have "next_ref h \<le> next_ref h'"
    by (simp add: next' next1)
  ultimately show ?thesis by blast
qed

lemma reachable_tree_at: "reachable f self h \<Longrightarrow> \<exists>rt. tree_at h self f rt \<and> heap_ok h"
proof (induction rule: reachable.induct)
  case (new h0 f xs self h)
  from BKTree_h_refines [OF new(1), of f xs] new(2) show ?case by auto
next
  case (add f self h x h')
  then obtain rt where "tree_at h self f rt" "heap_ok h" by blast
  from add_h_refines [OF this, of x] add(2) show ?case by auto
next
  case (find f self h x n res h')
  then obtain rt where t: "tree_at h self f rt" and ok: "heap_ok h" by blast
  from find_h_refines [OF t ok, of x n] find(2)
  have "\<forall>r < next_ref h. objs h' r = objs h r" "heap_ok h'" "next_ref h \<le> next_ref h'"
    by auto
  with tree_at_frame [OF t, of h'] show ?case by auto
next
  case (iter f self h ys h')
  then obtain rt where t: "tree_at h self f rt" and ok: "heap_ok h" by blast
  from iter_h_refines [OF t ok] iter(2)
  have "\<forall>r < next_ref h. objs h' r = objs h r" "heap_ok h'" "next_ref h \<le> next_ref h'"
    by auto
  with tree_at_frame [OF t, of h'] show ?case by auto
next
  case (other f self h ob)
  then obtain rt where t: "tree_at h self f rt" and ok: "heap_ok h" by blast
  let ?h' = "snd (alloc ob h)"
  have "\<forall>r < next_ref h. objs ?h' r = objs h r" "next_ref h \<le> next_ref ?h'"
    by (simp_all add: alloc_def)
  moreover from ok have "heap_ok ?h'" by (simp add: heap_ok_def alloc_def)
  ultimately show ?case using tree_at_frame [OF t, of ?h'] by auto
qed

lemma heap_ok_frame:
  "heap_ok h \<Longrightarrow> \<forall>r < next_ref h. objs h' r = objs h r \<Longrightarrow> objs h r = Some ob \<Longrightarrow>
   objs h' r = Some ob"
  by (cases "r < next_ref h") (auto simp: heap_ok_def not_less)

lemma store_model_agrees:
  assumes "heap_ok h0" and "BKTree_h f xs h0 = Some (self, h)"
  shows "(\<exists>res h'. find_h self q n h = Some (res, h') \<and>
            objs h' res = Some (PyList (find_bk (BKTree f xs) q n))) \<and>
         (\<exists>h'. iter_h self h = Some (iter (BKTree f xs), h'))"
proof -
  from BKTree_h_refines [OF assms(1), of f xs] assms(2) obtain rt where
    t: "tree_at h self f rt" and ok: "heap_ok h" and er: "erase_tree f rt = BKTree f xs"
    by auto
  from find_h_refines [OF t ok, of q n] iter_h_refines [OF t ok] er
  show ?thesis by auto
qed

section \<open>Determinism\<close>

text \<open>
  C8. In any well-formed store, constructing a tree from a distance function and a
  sequence of items, and then a second tree from the same function and sequence, gives
  two different instances, and \<^verbatim>\<open>find\<close> with the same query and radius returns for each
  a list of its own with the same contents (those of the functional \<^verbatim>\<open>find\<close>): building
  the second tree and querying the first disturb neither. A dict enumerates its entries in
  insertion order, in both trees.
\<close>

theorem find_deterministic:
  assumes "heap_ok h0"
  shows "\<exists>t1 h1 t2 h2 res1 h3 res2 h4.
           BKTree_h f xs h0 = Some (t1, h1) \<and> BKTree_h f xs h1 = Some (t2, h2) \<and> t1 \<noteq> t2 \<and>
           find_h t1 q n h2 = Some (res1, h3) \<and> find_h t2 q n h3 = Some (res2, h4) \<and>
           res1 \<noteq> res2 \<and>
           objs h4 res1 = Some (PyList (find_bk (BKTree f xs) q n)) \<and>
           objs h4 res2 = Some (PyList (find_bk (BKTree f xs) q n))"
proof -
  from BKTree_h_refines [OF assms, of f xs] obtain h1 rt1 where
    b1: "BKTree_h f xs h0 = Some (next_ref h0, h1)" and
    t1: "tree_at h1 (next_ref h0) f rt1" and ok1: "heap_ok h1" and
    er1: "erase_tree f rt1 = BKTree f xs" and lt1: "next_ref h0 < next_ref h1"
    by blast
  from BKTree_h_refines [OF ok1, of f xs] obtain h2 rt2 where
    b2: "BKTree_h f xs h1 = Some (next_ref h1, h2)" and
    t2: "tree_at h2 (next_ref h1) f rt2" and ok2: "heap_ok h2" and
    er2: "erase_tree f rt2 = BKTree f xs" and lt2: "next_ref h1 < next_ref h2" and
    frame2: "\<forall>r < next_ref h1. objs h2 r = objs h1 r"
    by blast
  from t1 lt2 frame2 have t1': "tree_at h2 (next_ref h0) f rt1"
    by (intro tree_at_frame [OF t1]) auto
  from find_h_refines [OF t1' ok2, of q n] er1 obtain res1 h3 where
    f1: "find_h (next_ref h0) q n h2 = Some (res1, h3)" and
    r1: "objs h3 res1 = Some (PyList (find_bk (BKTree f xs) q n))" and
    frame3: "\<forall>r < next_ref h2. objs h3 r = objs h2 r" and ok3: "heap_ok h3" and
    res1: "next_ref h2 \<le> res1" "res1 < next_ref h3"
    by auto
  from t2 frame3 res1 have t2': "tree_at h3 (next_ref h1) f rt2"
    by (intro tree_at_frame [OF t2]) auto
  from find_h_refines [OF t2' ok3, of q n] er2 obtain res2 h4 where
    f2: "find_h (next_ref h1) q n h3 = Some (res2, h4)" and
    r2: "objs h4 res2 = Some (PyList (find_bk (BKTree f xs) q n))" and
    frame4: "\<forall>r < next_ref h3. objs h4 r = objs h3 r" and
    res2: "next_ref h3 \<le> res2"
    by auto
  from frame4 res1 r1 have r1': "objs h4 res1 = Some (PyList (find_bk (BKTree f xs) q n))"
    by simp
  from lt1 have "next_ref h0 \<noteq> next_ref h1" by simp
  moreover from res1 res2 have "res1 \<noteq> res2" by simp
  ultimately show ?thesis using b1 b2 f1 f2 r1' r2 by blast
qed

theorem find_deterministic_witness:
  "heap_ok (empty_heap :: int heap) \<and>
   (\<exists>t1 h1 t2 h2 res1 h3 res2 h4.
      BKTree_h hamming_distance [0, 4, 5, 14, 15] empty_heap = Some (t1, h1) \<and>
      BKTree_h hamming_distance [0, 4, 5, 14, 15] h1 = Some (t2, h2) \<and> t1 \<noteq> t2 \<and>
      find_h t1 13 2 h2 = Some (res1, h3) \<and> find_h t2 13 2 h3 = Some (res2, h4) \<and>
      res1 \<noteq> res2 \<and>
      objs h4 res1 = Some (PyList [(1, 5), (1, 15), (2, 4), (2, 14)]) \<and>
      objs h4 res2 = Some (PyList [(1, 5), (1, 15), (2, 4), (2, 14)]))"
proof -
  have ok: "heap_ok (empty_heap :: int heap)"
    by (simp add: heap_ok_def empty_heap_def)
  have val: "find_bk (BKTree hamming_distance [0, 4, 5, 14, 15]) 13 2 =
      [(1, 5), (1, 15), (2, 4), (2, 14)]"
    by code_simp
  from find_deterministic [OF ok, of hamming_distance "[0, 4, 5, 14, 15]" 13 2] ok
  show ?thesis unfolding val by simp
qed

section \<open>find and iteration leave the tree as it is\<close>

text \<open>
  C9. In every reachable state of an instance, \<^verbatim>\<open>find\<close> and a full iteration return,
  and every object the store held before (the instance with its root, every children
  dict with its keys and node tuples) is the same after; \<^verbatim>\<open>add\<close> returns with some
  object of the store changed.
\<close>

theorem find_iter_read_only:
  assumes "reachable f self h"
  shows "(\<exists>res h'. find_h self q n h = Some (res, h') \<and>
            (\<forall>r ob. objs h r = Some ob \<longrightarrow> objs h' r = Some ob)) \<and>
         (\<exists>ys h'. iter_h self h = Some (ys, h') \<and>
            (\<forall>r ob. objs h r = Some ob \<longrightarrow> objs h' r = Some ob)) \<and>
         (\<exists>h'. add_h self y h = Some h' \<and>
            (\<exists>r ob. objs h r = Some ob \<and> objs h' r \<noteq> Some ob)) \<and>
         (\<exists>root. objs h self = Some (Inst f root))"
proof -
  from reachable_tree_at [OF assms] obtain rt where
    t: "tree_at h self f rt" and ok: "heap_ok h"
    by blast
  from find_h_refines [OF t ok, of q n] obtain res h1 where
    "find_h self q n h = Some (res, h1)" "\<forall>r < next_ref h. objs h1 r = objs h r"
    by blast
  with heap_ok_frame [OF ok, of h1]
  have 1: "\<exists>res h'. find_h self q n h = Some (res, h') \<and>
            (\<forall>r ob. objs h r = Some ob \<longrightarrow> objs h' r = Some ob)"
    by blast
  from iter_h_refines [OF t ok] obtain h2 where
    "iter_h self h = Some (iter (erase_tree f rt), h2)" "\<forall>r < next_ref h. objs h2 r = objs h r"
    by blast
  with heap_ok_frame [OF ok, of h2]
  have 2: "\<exists>ys h'. iter_h self h = Some (ys, h') \<and>
            (\<forall>r ob. objs h r = Some ob \<longrightarrow> objs h' r = Some ob)"
    by blast
  from add_h_refines [OF t ok, of y]
  have 3: "\<exists>h'. add_h self y h = Some h' \<and>
            (\<exists>r ob. objs h r = Some ob \<and> objs h' r \<noteq> Some ob)"
    by blast
  from t have 4: "\<exists>root. objs h self = Some (Inst f root)" by (simp add: tree_at_def)
  from 1 2 3 4 show ?thesis by simp
qed

theorem find_iter_read_only_witness:
  "\<exists>self h. reachable hamming_distance self h \<and>
     (\<exists>res h'. find_h self 13 2 h = Some (res, h') \<and>
        (\<forall>r ob. objs h r = Some ob \<longrightarrow> objs h' r = Some ob) \<and>
        objs h' res = Some (PyList [(1, 5), (1, 15), (2, 4), (2, 14)])) \<and>
     (\<exists>h'. iter_h self h = Some ([0, 4, 5, 14, 15], h')) \<and>
     (\<exists>root. objs h self = Some (Inst hamming_distance root))"
proof -
  have ok: "heap_ok (empty_heap :: int heap)"
    by (simp add: heap_ok_def empty_heap_def)
  from BKTree_h_refines [OF ok, of hamming_distance "[0, 4, 5, 14, 15]"] obtain h where
    b: "BKTree_h hamming_distance [0, 4, 5, 14, 15] empty_heap = Some (0, h)"
    by (auto simp: empty_heap_def)
  from ok b have r: "reachable hamming_distance 0 h" by (rule reachable.new)
  have val: "find_bk (BKTree hamming_distance [0, 4, 5, 14, 15]) 13 2 =
      [(1, 5), (1, 15), (2, 4), (2, 14)]"
    by code_simp
  have it: "iter (BKTree hamming_distance [0, 4, 5, 14, 15]) = [0, 4, 5, 14, 15]"
    by code_simp
  from store_model_agrees [OF ok b, of 13 2] obtain res h1 h2 where
    f: "find_h 0 13 2 h = Some (res, h1)"
      "objs h1 res = Some (PyList [(1, 5), (1, 15), (2, 4), (2, 14)])" and
    i: "iter_h 0 h = Some ([0, 4, 5, 14, 15], h2)"
    unfolding val it by blast
  from find_iter_read_only [OF r, of 13 2] f i
  have "(\<exists>res h'. find_h 0 13 2 h = Some (res, h') \<and>
        (\<forall>r ob. objs h r = Some ob \<longrightarrow> objs h' r = Some ob) \<and>
        objs h' res = Some (PyList [(1, 5), (1, 15), (2, 4), (2, 14)])) \<and>
     (\<exists>h'. iter_h 0 h = Some ([0, 4, 5, 14, 15], h')) \<and>
     (\<exists>root. objs h 0 = Some (Inst hamming_distance root))"
    by auto
  with r show ?thesis by blast
qed


section \<open>hamming\_distance counts the differing bits\<close>

text \<open>
  C10. For non-negative integers \<open>x\<close> and \<open>y\<close>, \<^verbatim>\<open>hamming_distance(x, y)\<close> is the number
  of bit positions at which they differ, which is the number of one bits of \<open>x XOR y\<close>;
  for all integers it is symmetric, and it is 0 from an integer to itself.
\<close>

theorem hamming_distance_popcount:
  "(0 \<le> x \<longrightarrow> 0 \<le> y \<longrightarrow> hamming_distance x y = int (card {i. bit x i \<noteq> bit y i})) \<and>
   hamming_distance x y = hamming_distance y x \<and> hamming_distance x x = 0"
proof (intro conjI impI)
  show "hamming_distance x y = int (card {i. bit x i \<noteq> bit y i})" if "0 \<le> x" "0 \<le> y"
    using that by (rule hamming_card)
  show "hamming_distance x y = hamming_distance y x" by (rule hamming_sym)
  show "hamming_distance x x = 0" by (rule hamming_self)
qed

theorem hamming_distance_popcount_witness:
  "(0::int) \<le> 13 \<and> (0::int) \<le> 5 \<and> hamming_distance 13 5 = int (card {i. bit (13::int) i \<noteq> bit (5::int) i}) \<and>
   hamming_distance 13 5 = 1 \<and> hamming_distance 5 13 = 1 \<and> hamming_distance 13 13 = 0"
proof -
  have "hamming_distance 13 5 = 1" by code_simp
  with hamming_distance_popcount [of 13 5] show ?thesis by simp
qed

end
